theory Spec2Isabelle
  imports Complex_Main "HOL-Library.Word" "HOL-Library.Log_Nat"
begin

unbundle bit_operations_syntax

section \<open>PartitionAlloc: the partition root (partition\_root.h)\<close>

text \<open>
  The development follows the 64-bit build (\<open>PA_HAS_64_BITS_POINTERS\<close>): \<open>size_t\<close> and
  \<open>uintptr_t\<close> are 64-bit words, whose arithmetic wraps around. Small counters
  (\<open>uint8_t\<close> orders up to 64, \<open>uint16_t\<close> bucket indices up to \<open>kNumBuckets\<close>, array
  positions) never come near the limit of their type and are natural numbers.
\<close>

type_synonym size_t = "64 word"
type_synonym uintptr_t = "64 word"

subsection \<open>Constants of partition\_alloc\_constants.h\<close>

text \<open>
  Modelled from the spec: the header partition\_alloc\_constants.h is not part of the
  sources at hand. \<open>kAlignment\<close> is the platform's fundamental alignment, 8 or 16 (the
  comment of \<open>PartitionOptions::Alignment::kRegular\<close>; the spec's ``SmallestBucket =
  Alignment (8 or 16)''), and is a parameter \<open>al\<close> of everything that depends on it. Three
  bits select a bucket inside an order (``order\_index is the next three MSB''), and the
  largest bucketed order is 20, the only choice for which \<open>kMaxBucketed\<close> is 983040 as
  \<open>PartitionAllocGlobalInit\<close> asserts.
\<close>

definition kBitsPerSizeT :: nat where
  "kBitsPerSizeT = 64"

definition kNumBucketsPerOrderBits :: nat where
  "kNumBucketsPerOrderBits = 3"

definition kNumBucketsPerOrder :: nat where
  "kNumBucketsPerOrder = 2 ^ kNumBucketsPerOrderBits"

definition kMinBucketedOrder :: "nat \<Rightarrow> nat" where
  "kMinBucketedOrder al = (if al = 16 then 5 else 4)"

definition kMaxBucketedOrder :: nat where
  "kMaxBucketedOrder = 20"

definition kNumBucketedOrders :: "nat \<Rightarrow> nat" where
  "kNumBucketedOrders al = (kMaxBucketedOrder - kMinBucketedOrder al) + 1"

definition kNumBuckets :: "nat \<Rightarrow> nat" where
  "kNumBuckets al = kNumBucketedOrders al * kNumBucketsPerOrder"

definition kSmallestBucket :: "nat \<Rightarrow> size_t" where
  "kSmallestBucket al = push_bit (kMinBucketedOrder al - 1) 1"

definition kMaxBucketSpacing :: size_t where
  "kMaxBucketSpacing = push_bit ((kMaxBucketedOrder - 1) - kNumBucketsPerOrderBits) 1"

definition kMaxBucketed :: size_t where
  "kMaxBucketed =
     push_bit (kMaxBucketedOrder - 1) 1 + (of_nat kNumBucketsPerOrder - 1) * kMaxBucketSpacing"

subsection \<open>Counting leading zeros (base/bits.h)\<close>

text \<open>
  Modelled from the spec: base/bits.h is not part of the sources at hand.
  \<open>CountLeadingZeroBitsSizeT\<close> counts the zero bits above the most significant set bit of
  a \<open>size_t\<close>, and is the width of the type for 0. \<open>clz_from k v\<close> scans the bits
  \<open>k - 1\<close>, \<open>k - 2\<close>, ... of \<open>v\<close> downwards until one is set.
\<close>

fun clz_from :: "nat \<Rightarrow> size_t \<Rightarrow> nat" where
  "clz_from 0 v = 0"
| "clz_from (Suc k) v = (if bit v k then 0 else Suc (clz_from k v))"

definition CountLeadingZeroBitsSizeT :: "size_t \<Rightarrow> nat" where
  "CountLeadingZeroBitsSizeT v = clz_from kBitsPerSizeT v"

subsection \<open>Shift and mask constants of the hot path\<close>

definition OrderIndexShift :: "nat \<Rightarrow> nat" where
  "OrderIndexShift order =
     (if order < kNumBucketsPerOrderBits + 1 then 0
      else order - (kNumBucketsPerOrderBits + 1))"

definition OrderSubIndexMask :: "nat \<Rightarrow> size_t" where
  "OrderSubIndexMask order =
     (if order = kBitsPerSizeT then drop_bit (kNumBucketsPerOrderBits + 1) (- 1)
      else drop_bit (kNumBucketsPerOrderBits + 1) (push_bit order 1 - 1))"

definition kOrderIndexShift :: "nat list" where
  "kOrderIndexShift = map OrderIndexShift [0 ..< kBitsPerSizeT + 1]"

definition kOrderSubIndexMask :: "size_t list" where
  "kOrderSubIndexMask = map OrderSubIndexMask [0 ..< kBitsPerSizeT + 1]"

subsection \<open>The bucket lookup table, built at compile time\<close>

text \<open>
  \<open>InitBucketSizes\<close>: the inner loop writes \<open>kNumBucketsPerOrder\<close> sizes one increment
  apart, the outer loop doubles the increment after each order. The array is filled from
  its first cell on, so the model appends.
\<close>

fun InitBucketSizes_inner :: "nat \<Rightarrow> size_t \<Rightarrow> size_t \<Rightarrow> size_t list \<Rightarrow> size_t \<times> size_t list" where
  "InitBucketSizes_inner 0 current_size current_increment bucket_sizes =
     (current_size, bucket_sizes)"
| "InitBucketSizes_inner (Suc k) current_size current_increment bucket_sizes =
     InitBucketSizes_inner k (current_size + current_increment) current_increment
       (bucket_sizes @ [current_size])"

fun InitBucketSizes_outer :: "nat \<Rightarrow> size_t \<Rightarrow> size_t \<Rightarrow> size_t list \<Rightarrow> size_t list" where
  "InitBucketSizes_outer 0 current_size current_increment bucket_sizes = bucket_sizes"
| "InitBucketSizes_outer (Suc k) current_size current_increment bucket_sizes =
     (case InitBucketSizes_inner kNumBucketsPerOrder current_size current_increment bucket_sizes of
        (current_size', bucket_sizes') \<Rightarrow>
          InitBucketSizes_outer k current_size' (push_bit 1 current_increment) bucket_sizes')"

definition InitBucketSizes :: "nat \<Rightarrow> size_t list" where
  "InitBucketSizes al =
     InitBucketSizes_outer (kNumBucketedOrders al) (kSmallestBucket al)
       (drop_bit kNumBucketsPerOrderBits (kSmallestBucket al)) []"

text \<open>
  The \<open>while\<close> loop of the constructor that skips the bucket sizes which are not
  multiples of \<open>kSmallestBucket\<close>. Reading past the end of \<open>bucket_sizes_\<close> has no
  value in a constant expression: \<open>None\<close>.
\<close>

function valid_bucket_index_from :: "nat \<Rightarrow> size_t list \<Rightarrow> nat \<Rightarrow> nat option" where
  "valid_bucket_index_from al bucket_sizes valid_bucket_index =
     (if length bucket_sizes \<le> valid_bucket_index then None
      else if bucket_sizes ! valid_bucket_index mod kSmallestBucket al \<noteq> 0
        then valid_bucket_index_from al bucket_sizes (valid_bucket_index + 1)
      else Some valid_bucket_index)"
  by pat_completeness auto
termination
  by (relation "measure (\<lambda>(al, bucket_sizes, i). length bucket_sizes - i)") auto

text \<open>
  The constructor's two loops. The state is the running \<open>bucket_index\<close> and the part of
  \<open>bucket_index_lookup_\<close> written so far; \<open>fill_order k\<close> runs the last \<open>k\<close> rounds of
  the inner loop, \<open>fill_orders k\<close> the last \<open>k\<close> rounds of the outer one, which
  ends after order \<open>kBitsPerSizeT\<close>.
\<close>

fun fill_order :: "nat \<Rightarrow> nat \<Rightarrow> size_t list \<Rightarrow> nat \<Rightarrow> nat \<Rightarrow> nat list \<Rightarrow> (nat \<times> nat list) option" where
  "fill_order 0 al bucket_sizes order bucket_index tbl = Some (bucket_index, tbl)"
| "fill_order (Suc k) al bucket_sizes order bucket_index tbl =
     (if order < kMinBucketedOrder al
        then fill_order k al bucket_sizes order bucket_index (tbl @ [0])
      else if order > kMaxBucketedOrder
        then fill_order k al bucket_sizes order bucket_index (tbl @ [kNumBuckets al])
      else (case valid_bucket_index_from al bucket_sizes bucket_index of
              None \<Rightarrow> None
            | Some valid_bucket_index \<Rightarrow>
                fill_order k al bucket_sizes order (bucket_index + 1)
                  (tbl @ [valid_bucket_index])))"

fun fill_orders :: "nat \<Rightarrow> nat \<Rightarrow> size_t list \<Rightarrow> nat \<Rightarrow> nat list \<Rightarrow> (nat \<times> nat list) option" where
  "fill_orders 0 al bucket_sizes bucket_index tbl = Some (bucket_index, tbl)"
| "fill_orders (Suc k) al bucket_sizes bucket_index tbl =
     (case fill_order kNumBucketsPerOrder al bucket_sizes (kBitsPerSizeT - k) bucket_index tbl of
        None \<Rightarrow> None
      | Some (bucket_index', tbl') \<Rightarrow> fill_orders k al bucket_sizes bucket_index' tbl')"

record BucketIndexLookup_t =
  bucket_sizes_tbl :: "size_t list"
  bucket_index_lookup :: "nat list"

text \<open>
  The constructor: \<open>None\<close> when it is not a constant expression (a read out of range).
  The two \<open>PA_DCHECK\<close>s at its end are theorems below.
\<close>

definition BucketIndexLookup :: "nat \<Rightarrow> BucketIndexLookup_t option" where
  "BucketIndexLookup al =
     (let sizes = InitBucketSizes al in
      case fill_orders (kBitsPerSizeT + 1) al sizes 0 [] of
        None \<Rightarrow> None
      | Some (bucket_index, tbl) \<Rightarrow>
          Some \<lparr> bucket_sizes_tbl = sizes, bucket_index_lookup = tbl @ [kNumBuckets al] \<rparr>)"

subsection \<open>Size to bucket index\<close>

text \<open>
  \<open>BucketIndexLookup::GetIndex\<close>, in the order of the source: the order of the size, the
  bits after its most significant bit, the remaining bits, and the read of the table. The
  three local constants that fix the position read are functions of their own, so that
  theorems can speak about them.
\<close>

definition GetIndex_order :: "size_t \<Rightarrow> nat" where
  "GetIndex_order sz = kBitsPerSizeT - CountLeadingZeroBitsSizeT sz"

definition GetIndex_order_index :: "size_t \<Rightarrow> size_t" where
  "GetIndex_order_index sz =
     drop_bit (kOrderIndexShift ! GetIndex_order sz) sz AND (of_nat kNumBucketsPerOrder - 1)"

definition GetIndex_sub_order_index :: "size_t \<Rightarrow> size_t" where
  "GetIndex_sub_order_index sz = sz AND (kOrderSubIndexMask ! GetIndex_order sz)"

definition GetIndex_position :: "size_t \<Rightarrow> nat" where
  "GetIndex_position sz =
     push_bit kNumBucketsPerOrderBits (GetIndex_order sz) + unat (GetIndex_order_index sz)
       + (if GetIndex_sub_order_index sz \<noteq> 0 then 1 else 0)"

text \<open>
  The table is a constant expression of the program; \<open>GetIndex\<close> is \<open>None\<close> if it
  could not be built or if the position read were outside of it. Neither happens, which is
  proved below.
\<close>

definition GetIndex :: "nat \<Rightarrow> size_t \<Rightarrow> nat option" where
  "GetIndex al sz =
     (case BucketIndexLookup al of
        None \<Rightarrow> None
      | Some lookup \<Rightarrow>
          (if GetIndex_position sz < length (bucket_index_lookup lookup)
           then Some (bucket_index_lookup lookup ! GetIndex_position sz)
           else None))"

definition SizeToBucketIndex :: "nat \<Rightarrow> size_t \<Rightarrow> nat option" where
  "SizeToBucketIndex al sz = GetIndex al sz"

section \<open>Allocation and deallocation\<close>

subsection \<open>Outcomes, flags and build configuration\<close>

text \<open>
  A call either returns or ends the process. \<open>PA_CHECK\<close> is compiled into every build,
  \<open>PA_DCHECK\<close> only into builds with \<open>DCHECK_IS_ON()\<close>; \<open>OOM_CRASH\<close> is the end of
  \<open>PartitionExcessiveAllocationSize\<close> and of the out-of-memory handler. Dereferencing a
  pointer at which the model's store holds no object is \<open>Wild_pointer\<close>. The results are
  values of \<open>crash + 'a\<close>, with \<open>Inl\<close> for the end of the process. The lock of the root
  is not modelled: the calls are those of one thread.
\<close>

datatype crash = PA_CHECK_failed | PA_DCHECK_failed | OOM_CRASH | Wild_pointer

text \<open>
  The \<open>int flags\<close> argument is a set of the bits of \<open>PartitionAllocFlags\<close>: \<open>flags & F\<close>
  is \<open>F \<in> flags\<close>, and the argument \<open>0\<close> is the empty set.
\<close>

datatype PartitionAllocFlags = PartitionAllocReturnNull | PartitionAllocZeroFill | PartitionAllocNoHooks

text \<open>
  The preprocessor conditions and template arguments of partition\_root.h, and the constants
  of absent headers that the functions below read.
\<close>

record build =
  DCHECK_IS_ON :: bool
  ENABLE_REF_COUNT_FOR_BACKUP_REF_PTR :: bool
  MEMORY_TOOL_REPLACES_ALLOCATOR :: bool
  thread_safe :: bool
  kAlignment :: nat
  MaxDirectMapped :: size_t
  SystemPageBaseMask :: uintptr_t
  kCookieSize :: size_t
  kUninitializedByte :: "8 word"

subsection \<open>The store\<close>

text \<open>
  The fields of \<open>PartitionRoot\<close> that the functions below read or write, as the struct
  declares them; \<open>extras_size\<close> and \<open>extras_offset\<close> are \<open>uint32_t\<close> (both 0 when
  \<open>PARTITION_EXTRAS_REQUIRED\<close> is off). Of a bucket and of a slot span only the fields that
  partition\_root.h touches are kept. A \<open>Bucket*\<close> of a root is the index of the
  bucket, \<open>kNumBuckets\<close> for the sentinel that the layout puts right after the array; the
  \<open>bucket\<close> of a slot span is the address of its root and the index in it.
\<close>

datatype PCScanMode = kNonScannable | kDisabled | kEnabled

record PartitionBucket =
  active_slot_spans_head :: uintptr_t
  slot_size :: size_t

record PartitionRoot =
  pcscan_mode :: PCScanMode
  with_thread_cache :: bool
  allow_ref_count :: bool
  allow_cookies :: bool
  extras_size :: "32 word"
  extras_offset :: "32 word"
  buckets :: "PartitionBucket list"
  sentinel_bucket :: PartitionBucket
  initialized :: bool
  inverted_self :: uintptr_t

record SlotSpanMetadata =
  freelist_head :: uintptr_t
  num_allocated_slots :: int
  bucket :: "uintptr_t \<times> nat"

text \<open>
  The store maps addresses to the objects at them: roots, slot span metadata, the \<open>root\<close>
  field of the \<open>PartitionSuperPageExtentEntry\<close> at the start of a metadata area, and the
  bytes of memory. \<open>others\<close> is the state of everything partition\_root.h does not declare
  (pages, thread caches, hooks, the quarantine).
\<close>

record 'm world =
  roots :: "uintptr_t \<rightharpoonup> PartitionRoot"
  slot_spans :: "uintptr_t \<rightharpoonup> SlotSpanMetadata"
  extent_entry_root :: "uintptr_t \<rightharpoonup> uintptr_t"
  mem :: "uintptr_t \<Rightarrow> 8 word"
  others :: 'm

subsection \<open>Functions defined outside partition\_root.h\<close>

text \<open>
  The functions that partition\_root.h calls and that other files define (partition\_page.h,
  partition\_bucket.cc, partition\_freelist\_entry.h, thread\_cache.h,
  partition\_alloc\_hooks.h, pcscan.h, partition\_ref\_count.h, partition\_cookie.h, the C
  library) are parameters of the model. A function with an out-parameter returns it with
  its result and the store it leaves; the allocation override hook returns \<open>Some\<close> of its
  \<open>out\<close> pointer when it returns true. \<open>FreeNoHooksImmediate\<close> is defined in partition\_root.h; no statement
  below depends on its body, and it is a parameter as well.
\<close>

record 'm env =
  FromPointer :: "'m world \<Rightarrow> uintptr_t \<Rightarrow> uintptr_t"
  FromPointerNoAlignmentCheck :: "'m world \<Rightarrow> uintptr_t \<Rightarrow> uintptr_t"
  GetUtilizedSlotSize :: "'m world \<Rightarrow> uintptr_t \<Rightarrow> size_t"
  CanStoreRawSize :: "'m world \<Rightarrow> uintptr_t \<Rightarrow> bool"
  is_direct_mapped :: "'m world \<Rightarrow> uintptr_t \<times> nat \<Rightarrow> bool"
  GetNext :: "'m world \<Rightarrow> uintptr_t \<Rightarrow> crash + uintptr_t"
  SlowPathAlloc ::
    "'m world \<Rightarrow> uintptr_t \<Rightarrow> nat \<Rightarrow> PartitionAllocFlags set \<Rightarrow> size_t
      \<Rightarrow> crash + (uintptr_t \<times> bool \<times> 'm world)"
  ThreadCache_Get :: "'m world \<Rightarrow> uintptr_t"
  ThreadCache_Create :: "'m world \<Rightarrow> uintptr_t \<Rightarrow> crash + (uintptr_t \<times> 'm world)"
  GetFromCache :: "'m world \<Rightarrow> uintptr_t \<Rightarrow> nat \<Rightarrow> uintptr_t \<times> size_t \<times> 'm world"
  AreHooksEnabled :: "'m world \<Rightarrow> bool"
  AllocationOverrideHookIfEnabled ::
    "'m world \<Rightarrow> PartitionAllocFlags set \<Rightarrow> size_t \<Rightarrow> string \<Rightarrow> uintptr_t option \<times> 'm world"
  AllocationObserverHookIfEnabled :: "'m world \<Rightarrow> uintptr_t \<Rightarrow> size_t \<Rightarrow> string \<Rightarrow> 'm world"
  FreeObserverHookIfEnabled :: "'m world \<Rightarrow> uintptr_t \<Rightarrow> 'm world"
  FreeOverrideHookIfEnabled :: "'m world \<Rightarrow> uintptr_t \<Rightarrow> bool \<times> 'm world"
  MoveToQuarantine :: "'m world \<Rightarrow> uintptr_t \<Rightarrow> uintptr_t \<Rightarrow> crash + 'm world"
  FreeNoHooksImmediate :: "'m world \<Rightarrow> uintptr_t \<Rightarrow> uintptr_t \<Rightarrow> uintptr_t \<Rightarrow> crash + 'm world"
  PartitionSuperPageToMetadataArea :: "uintptr_t \<Rightarrow> uintptr_t"
  kCookieValue :: "8 word list"
  PartitionRefCount_bytes :: "8 word list"
  libc_malloc :: "'m world \<Rightarrow> size_t \<Rightarrow> uintptr_t \<times> 'm world"
  libc_calloc :: "'m world \<Rightarrow> size_t \<Rightarrow> size_t \<Rightarrow> uintptr_t \<times> 'm world"
  libc_free :: "'m world \<Rightarrow> uintptr_t \<Rightarrow> 'm world"

subsection \<open>Writing memory\<close>

text \<open>
  \<open>memset p c n\<close> of the C library sets the \<open>n\<close> bytes from \<open>p\<close> on to \<open>c\<close>.
  \<open>write_bytes\<close> stores a sequence of bytes from an address on.

  Modelled from the spec: partition\_cookie.h and partition\_ref\_count.h are not part of the
  sources at hand. \<open>PartitionCookieWriteValue\<close> stores the cookie word, a fixed pattern of
  \<open>kCookieSize\<close> bytes, at its argument; the constructor of \<open>PartitionRefCount\<close> stores
  the initial reference count word at the start of the slot (``a leading reference count
  word, placed at the slot start''). The bytes of both are parameters.
\<close>

definition memset :: "(uintptr_t \<Rightarrow> 8 word) \<Rightarrow> uintptr_t \<Rightarrow> 8 word \<Rightarrow> size_t \<Rightarrow> (uintptr_t \<Rightarrow> 8 word)" where
  "memset m p c n = (\<lambda>a. if a - p < n then c else m a)"

fun write_bytes :: "(uintptr_t \<Rightarrow> 8 word) \<Rightarrow> uintptr_t \<Rightarrow> 8 word list \<Rightarrow> (uintptr_t \<Rightarrow> 8 word)" where
  "write_bytes m p [] = m"
| "write_bytes m p (b # bs) = write_bytes (m(p := b)) (p + 1) bs"

definition PartitionCookieWriteValue :: "'m env \<Rightarrow> 'm world \<Rightarrow> uintptr_t \<Rightarrow> 'm world" where
  "PartitionCookieWriteValue env w p = w\<lparr>mem := write_bytes (mem w) p (kCookieValue env)\<rparr>"

definition PartitionRefCount_construct :: "'m env \<Rightarrow> 'm world \<Rightarrow> uintptr_t \<Rightarrow> 'm world" where
  "PartitionRefCount_construct env w slot_start =
     w\<lparr>mem := write_bytes (mem w) slot_start (PartitionRefCount_bytes env)\<rparr>"

subsection \<open>Extras\<close>

definition AdjustSizeForExtrasAdd :: "build \<Rightarrow> PartitionRoot \<Rightarrow> size_t \<Rightarrow> crash + size_t" where
  "AdjustSizeForExtrasAdd cfg root' sz =
     (if DCHECK_IS_ON cfg \<and> \<not> (sz + ucast (extras_size root') \<ge> sz) then Inl PA_DCHECK_failed
      else Inr (sz + ucast (extras_size root')))"

definition AdjustSizeForExtrasSubtract :: "PartitionRoot \<Rightarrow> size_t \<Rightarrow> size_t" where
  "AdjustSizeForExtrasSubtract root' sz = sz - ucast (extras_size root')"

definition AdjustPointerForExtrasAdd :: "PartitionRoot \<Rightarrow> uintptr_t \<Rightarrow> uintptr_t" where
  "AdjustPointerForExtrasAdd root' p = p + ucast (extras_offset root')"

definition AdjustPointerForExtrasSubtract :: "PartitionRoot \<Rightarrow> uintptr_t \<Rightarrow> uintptr_t" where
  "AdjustPointerForExtrasSubtract root' p = p - ucast (extras_offset root')"

text \<open>\<open>bucket_at\<close>, also written \<open>buckets + i\<close>: cell \<open>kNumBuckets\<close> is the sentinel.\<close>

definition bucket_at :: "PartitionRoot \<Rightarrow> nat \<Rightarrow> PartitionBucket" where
  "bucket_at root' i = (if i < length (buckets root') then buckets root' ! i else sentinel_bucket root')"

subsection \<open>From a slot sp or a super page to the root'\<close>

definition FromSlotSpan :: "build \<Rightarrow> 'm world \<Rightarrow> uintptr_t \<Rightarrow> crash + uintptr_t" where
  "FromSlotSpan cfg w slot_span =
     (case extent_entry_root w (slot_span AND SystemPageBaseMask cfg) of
        None \<Rightarrow> Inl Wild_pointer
      | Some root' \<Rightarrow> Inr root')"

definition IsValidSlotSpan :: "build \<Rightarrow> 'm world \<Rightarrow> uintptr_t \<Rightarrow> crash + bool" where
  "IsValidSlotSpan cfg w slot_span =
     (case FromSlotSpan cfg w slot_span of
        Inl c \<Rightarrow> Inl c
      | Inr root' \<Rightarrow>
          (case roots w root' of
             None \<Rightarrow> Inl Wild_pointer
           | Some r \<Rightarrow> Inr (inverted_self r = NOT root')))"

definition FromSuperPage :: "'m env \<Rightarrow> build \<Rightarrow> 'm world \<Rightarrow> uintptr_t \<Rightarrow> crash + uintptr_t" where
  "FromSuperPage env cfg w super_page =
     (case extent_entry_root w (PartitionSuperPageToMetadataArea env super_page) of
        None \<Rightarrow> Inl Wild_pointer
      | Some root' \<Rightarrow>
          (if DCHECK_IS_ON cfg then
             (case roots w root' of
                None \<Rightarrow> Inl Wild_pointer
              | Some r \<Rightarrow> if inverted_self r = NOT root' then Inr root' else Inl PA_DCHECK_failed)
           else Inr root'))"

text \<open>
  Modelled from the spec: \<open>PartitionRoot::Init\<close> is defined in partition\_root.cc, which is
  not part of the sources at hand. Of its effects the model has the two that the
  declaration of the struct documents: the integrity token (``Integrity check =
  \<open>~reinterpret_cast<uintptr_t>(this)\<close>'', ``set once at init and never mutated'') and the
  flag \<open>initialized\<close>.
\<close>

definition Init :: "'m world \<Rightarrow> uintptr_t \<Rightarrow> crash + 'm world" where
  "Init w this =
     (case roots w this of
        None \<Rightarrow> Inl Wild_pointer
      | Some r \<Rightarrow> Inr (w\<lparr>roots := (roots w)(this \<mapsto> r\<lparr>inverted_self := NOT this, initialized := True\<rparr>)\<rparr>))"

subsection \<open>Usable size\<close>

definition GetUsableSize :: "'m env \<Rightarrow> build \<Rightarrow> 'm world \<Rightarrow> uintptr_t \<Rightarrow> crash + size_t" where
  "GetUsableSize env cfg w ptr =
     (let slot_span = FromPointerNoAlignmentCheck env w ptr in
      case FromSlotSpan cfg w slot_span of
        Inl c \<Rightarrow> Inl c
      | Inr root' \<Rightarrow>
          (case roots w root' of
             None \<Rightarrow> Inl Wild_pointer
           | Some r \<Rightarrow> Inr (AdjustSizeForExtrasSubtract r (GetUtilizedSlotSize env w slot_span))))"

subsection \<open>Allocation\<close>

text \<open>
  \<open>AllocFromBucket\<close>. The result is \<open>None\<close> for \<open>nullptr\<close>, which leaves the
  out-parameters unset, and otherwise the pointer with \<open>utilized_slot_size\<close> and
  \<open>is_already_zeroed\<close>. \<open>SetFreelistHead\<close> stores the new head. \<open>RawAlloc\<close> is the same
  call under the lock.
\<close>

definition AllocFromBucket ::
  "'m env \<Rightarrow> build \<Rightarrow> 'm world \<Rightarrow> uintptr_t \<Rightarrow> nat \<Rightarrow> PartitionAllocFlags set \<Rightarrow> size_t
    \<Rightarrow> crash + ((uintptr_t \<times> size_t \<times> bool) option \<times> 'm world)" where
  "AllocFromBucket env cfg w this bucket_index flags raw_size =
     (case roots w this of
        None \<Rightarrow> Inl Wild_pointer
      | Some root' \<Rightarrow>
          (let slot_span = active_slot_spans_head (bucket_at root' bucket_index) in
           if DCHECK_IS_ON cfg \<and> slot_span = 0 then Inl PA_DCHECK_failed
           else
           case slot_spans w slot_span of
             None \<Rightarrow> Inl Wild_pointer
           | Some sp \<Rightarrow>
               if DCHECK_IS_ON cfg \<and> \<not> num_allocated_slots sp \<ge> 0 then Inl PA_DCHECK_failed
               else if freelist_head sp \<noteq> 0 then
                 (if DCHECK_IS_ON cfg \<and>
                     (IsValidSlotSpan cfg w slot_span \<noteq> Inr True
                      \<or> CanStoreRawSize env w slot_span
                      \<or> is_direct_mapped env w (bucket sp))
                  then Inl PA_DCHECK_failed
                  else
                  case GetNext env w (freelist_head sp) of
                    Inl c \<Rightarrow> Inl c
                  | Inr new_head \<Rightarrow>
                      if DCHECK_IS_ON cfg \<and> bucket sp \<noteq> (this, bucket_index) then Inl PA_DCHECK_failed
                      else
                      Inr (Some (freelist_head sp, slot_size (bucket_at root' bucket_index), False),
                           w\<lparr>slot_spans := (slot_spans w)(slot_span \<mapsto>
                               sp\<lparr>freelist_head := new_head,
                                    num_allocated_slots := num_allocated_slots sp + 1\<rparr>)\<rparr>))
               else
                 (case SlowPathAlloc env w this bucket_index flags raw_size of
                    Inl c \<Rightarrow> Inl c
                  | Inr (ret, is_already_zeroed, w') \<Rightarrow>
                      if DCHECK_IS_ON cfg \<and> ret \<noteq> 0
                         \<and> IsValidSlotSpan cfg w' (FromPointer env w' ret) \<noteq> Inr True
                      then Inl PA_DCHECK_failed
                      else if ret = 0 then Inr (None, w')
                      else
                      (let slot_span' = FromPointer env w' ret in
                       case slot_spans w' slot_span' of
                         None \<Rightarrow> Inl Wild_pointer
                       | Some sp' \<Rightarrow>
                           if DCHECK_IS_ON cfg \<and>
                              \<not> (bucket sp' = (this, bucket_index)
                                 \<or> (is_direct_mapped env w' (bucket sp')
                                    \<and> bucket_index = length (buckets root')))
                           then Inl PA_DCHECK_failed
                           else Inr (Some (ret, GetUtilizedSlotSize env w' slot_span', is_already_zeroed),
                                     w')))))"

definition RawAlloc ::
  "'m env \<Rightarrow> build \<Rightarrow> 'm world \<Rightarrow> uintptr_t \<Rightarrow> nat \<Rightarrow> PartitionAllocFlags set \<Rightarrow> size_t
    \<Rightarrow> crash + ((uintptr_t \<times> size_t \<times> bool) option \<times> 'm world)" where
  "RawAlloc env cfg w this bucket_index flags raw_size =
     AllocFromBucket env cfg w this bucket_index flags raw_size"

text \<open>
  \<open>AllocFlagsNoHooks\<close>, in three steps as its comment numbers them. The first adjusts the
  requested size and looks the bucket up.
\<close>

definition AllocFlagsNoHooks_raw_size :: "build \<Rightarrow> PartitionRoot \<Rightarrow> size_t \<Rightarrow> crash + size_t" where
  "AllocFlagsNoHooks_raw_size cfg root' requested_size =
     (let raw_size =
            (if ENABLE_REF_COUNT_FOR_BACKUP_REF_PTR cfg \<and> requested_size = 0 then 1
             else requested_size) in
      case AdjustSizeForExtrasAdd cfg root' raw_size of
        Inl c \<Rightarrow> Inl c
      | Inr raw_size' \<Rightarrow>
          if \<not> raw_size' \<ge> requested_size then Inl PA_CHECK_failed else Inr raw_size')"

text \<open>
  The second step takes a slot from the thread cache or from the bucket. A thread without
  a thread cache gets one first, with \<open>with_thread_cache\<close> switched off around the call.
\<close>

definition set_with_thread_cache :: "'m world \<Rightarrow> uintptr_t \<Rightarrow> bool \<Rightarrow> 'm world" where
  "set_with_thread_cache w this b =
     (case roots w this of
        None \<Rightarrow> w
      | Some r \<Rightarrow> w\<lparr>roots := (roots w)(this \<mapsto> r\<lparr>with_thread_cache := b\<rparr>)\<rparr>)"

definition AllocFlagsNoHooks_allocate ::
  "'m env \<Rightarrow> build \<Rightarrow> 'm world \<Rightarrow> uintptr_t \<Rightarrow> PartitionRoot \<Rightarrow> nat \<Rightarrow> PartitionAllocFlags set
    \<Rightarrow> size_t \<Rightarrow> crash + ((uintptr_t \<times> size_t \<times> bool) option \<times> 'm world)" where
  "AllocFlagsNoHooks_allocate env cfg w this root' bucket_index flags raw_size =
     (if thread_safe cfg \<and> with_thread_cache root' then
        (case (if ThreadCache_Get env w = 0 then
                 (case ThreadCache_Create env (set_with_thread_cache w this False) this of
                    Inl c \<Rightarrow> Inl c
                  | Inr (tcache, w') \<Rightarrow> Inr (tcache, set_with_thread_cache w' this True))
               else Inr (ThreadCache_Get env w, w)) of
           Inl c \<Rightarrow> Inl c
         | Inr (tcache, w1) \<Rightarrow>
             (case GetFromCache env w1 tcache bucket_index of
                (ret, utilized_slot_size, w2) \<Rightarrow>
                  if ret \<noteq> 0 then
                    (if DCHECK_IS_ON cfg \<and>
                        (IsValidSlotSpan cfg w2 (FromPointerNoAlignmentCheck env w2 ret) \<noteq> Inr True
                         \<or> map_option bucket (slot_spans w2 (FromPointerNoAlignmentCheck env w2 ret))
                              \<noteq> Some (this, bucket_index)
                         \<or> CanStoreRawSize env w2 (FromPointerNoAlignmentCheck env w2 ret)
                         \<or> is_direct_mapped env w2 (this, bucket_index))
                     then Inl PA_DCHECK_failed
                     else Inr (Some (ret, utilized_slot_size, False), w2))
                  else RawAlloc env cfg w2 this bucket_index flags raw_size))
      else RawAlloc env cfg w this bucket_index flags raw_size)"

text \<open>
  The third step writes the cookies, fills the region and constructs the reference count.
  The function of the source returns the pointer only; the model returns its local
  constants with it, so that theorems can speak about them.
\<close>

record alloc_info =
  ret :: uintptr_t
  slot_start :: uintptr_t
  raw_size :: size_t
  utilized_slot_size :: size_t
  usable_size :: size_t
  is_already_zeroed :: bool

definition AllocFlagsNoHooks_finish ::
  "'m env \<Rightarrow> build \<Rightarrow> 'm world \<Rightarrow> PartitionRoot \<Rightarrow> PartitionAllocFlags set \<Rightarrow> size_t
    \<Rightarrow> uintptr_t \<times> size_t \<times> bool \<Rightarrow> alloc_info \<times> 'm world" where
  "AllocFlagsNoHooks_finish env cfg w root' flags raw_sz allocated =
     (case allocated of (slot, utilized, zeroed) \<Rightarrow>
        (let usable = AdjustSizeForExtrasSubtract root' utilized;
             p = AdjustPointerForExtrasAdd root' slot;
             w1 = (if DCHECK_IS_ON cfg \<and> allow_cookies root'
                   then PartitionCookieWriteValue env
                          (PartitionCookieWriteValue env w (p - kCookieSize cfg)) (p + usable)
                   else w);
             w2 = (if PartitionAllocZeroFill \<notin> flags
                   then (if DCHECK_IS_ON cfg
                         then w1\<lparr>mem := memset (mem w1) p (kUninitializedByte cfg) usable\<rparr>
                         else w1)
                   else if \<not> zeroed then w1\<lparr>mem := memset (mem w1) p 0 usable\<rparr>
                   else w1);
             direct_mapped = (raw_sz > kMaxBucketed);
             w3 = (if ENABLE_REF_COUNT_FOR_BACKUP_REF_PTR cfg \<and> allow_ref_count root'
                      \<and> \<not> direct_mapped
                   then PartitionRefCount_construct env w2 slot
                   else w2)
         in (\<lparr> ret = p, slot_start = slot, raw_size = raw_sz, utilized_slot_size = utilized,
                usable_size = usable, is_already_zeroed = zeroed \<rparr>, w3)))"

definition AllocFlagsNoHooks_info ::
  "'m env \<Rightarrow> build \<Rightarrow> 'm world \<Rightarrow> uintptr_t \<Rightarrow> PartitionAllocFlags set \<Rightarrow> size_t
    \<Rightarrow> crash + (alloc_info option \<times> 'm world)" where
  "AllocFlagsNoHooks_info env cfg w this flags requested_size =
     (case roots w this of
        None \<Rightarrow> Inl Wild_pointer
      | Some root' \<Rightarrow>
          (case AllocFlagsNoHooks_raw_size cfg root' requested_size of
             Inl c \<Rightarrow> Inl c
           | Inr raw_sz \<Rightarrow>
               (case SizeToBucketIndex (kAlignment cfg) raw_sz of
                  None \<Rightarrow> Inl Wild_pointer
                | Some bucket_index \<Rightarrow>
                    (case AllocFlagsNoHooks_allocate env cfg w this root' bucket_index flags raw_sz of
                       Inl c \<Rightarrow> Inl c
                     | Inr (None, w') \<Rightarrow> Inr (None, w')
                     | Inr (Some allocated, w') \<Rightarrow>
                         (case AllocFlagsNoHooks_finish env cfg w' root' flags raw_sz allocated of
                            (info, w'') \<Rightarrow> Inr (Some info, w''))))))"

definition AllocFlagsNoHooks ::
  "'m env \<Rightarrow> build \<Rightarrow> 'm world \<Rightarrow> uintptr_t \<Rightarrow> PartitionAllocFlags set \<Rightarrow> size_t
    \<Rightarrow> crash + (uintptr_t \<times> 'm world)" where
  "AllocFlagsNoHooks env cfg w this flags requested_size =
     (case AllocFlagsNoHooks_info env cfg w this flags requested_size of
        Inl c \<Rightarrow> Inl c
      | Inr (None, w') \<Rightarrow> Inr (0, w')
      | Inr (Some info, w') \<Rightarrow> Inr (ret info, w'))"

text \<open>
  The macro \<open>CHECK_MAX_SIZE_OR_RETURN_NULLPTR\<close>: \<open>None\<close> when control goes on after it,
  otherwise what the enclosing function does.
\<close>

definition CHECK_MAX_SIZE_OR_RETURN_NULLPTR ::
  "build \<Rightarrow> size_t \<Rightarrow> PartitionAllocFlags set \<Rightarrow> (crash + uintptr_t) option" where
  "CHECK_MAX_SIZE_OR_RETURN_NULLPTR cfg sz flags =
     (if sz > MaxDirectMapped cfg then
        (if PartitionAllocReturnNull \<in> flags then Some (Inr 0) else Some (Inl PA_CHECK_failed))
      else None)"

definition AllocFlags ::
  "'m env \<Rightarrow> build \<Rightarrow> 'm world \<Rightarrow> uintptr_t \<Rightarrow> PartitionAllocFlags set \<Rightarrow> size_t \<Rightarrow> string
    \<Rightarrow> crash + (uintptr_t \<times> 'm world)" where
  "AllocFlags env cfg w this flags requested_size type_name =
     (case roots w this of
        None \<Rightarrow> Inl Wild_pointer
      | Some root' \<Rightarrow>
          if DCHECK_IS_ON cfg \<and> (PartitionAllocNoHooks \<in> flags \<or> \<not> initialized root')
          then Inl PA_DCHECK_failed
          else if MEMORY_TOOL_REPLACES_ALLOCATOR cfg then
            (case CHECK_MAX_SIZE_OR_RETURN_NULLPTR cfg requested_size flags of
               Some (Inl c) \<Rightarrow> Inl c
             | Some (Inr p) \<Rightarrow> Inr (p, w)
             | None \<Rightarrow>
                 (case (if PartitionAllocZeroFill \<in> flags then libc_calloc env w 1 requested_size
                        else libc_malloc env w requested_size) of
                    (result, w') \<Rightarrow>
                      if result \<noteq> 0 \<or> PartitionAllocReturnNull \<in> flags then Inr (result, w')
                      else Inl PA_CHECK_failed))
          else
            (case (if AreHooksEnabled env w
                   then AllocationOverrideHookIfEnabled env w flags requested_size type_name
                   else (None, w)) of
               (Some p, w1) \<Rightarrow>
                 Inr (p, AllocationObserverHookIfEnabled env w1 p requested_size type_name)
             | (None, w1) \<Rightarrow>
                 (case AllocFlagsNoHooks env cfg w1 this flags requested_size of
                    Inl c \<Rightarrow> Inl c
                  | Inr (p, w2) \<Rightarrow>
                      Inr (p, if AreHooksEnabled env w
                              then AllocationObserverHookIfEnabled env w2 p requested_size type_name
                              else w2))))"

definition Alloc ::
  "'m env \<Rightarrow> build \<Rightarrow> 'm world \<Rightarrow> uintptr_t \<Rightarrow> size_t \<Rightarrow> string \<Rightarrow> crash + (uintptr_t \<times> 'm world)" where
  "Alloc env cfg w this requested_size type_name =
     AllocFlags env cfg w this {} requested_size type_name"

subsection \<open>Aligned allocation\<close>

text \<open>
  Modelled from the spec: base/bits.h is not part of the sources at hand. \<open>IsPowerOfTwo\<close>
  holds of the values \<open>1 << k\<close> of the type.
\<close>

definition IsPowerOfTwo :: "size_t \<Rightarrow> bool" where
  "IsPowerOfTwo v = (\<exists>k \<in> {0 ..< kBitsPerSizeT}. v = push_bit k 1)"

text \<open>
  The size that \<open>AlignedAllocFlags\<close> requests. When \<open>size - 1\<close> has its top bit set the
  shift count is the width of \<open>size_t\<close>; the model shifts the bit out, and the overflow
  check that follows sees a requested size below \<open>size\<close>.
\<close>

definition AlignedAlloc_requested_size :: "size_t \<Rightarrow> size_t \<Rightarrow> size_t" where
  "AlignedAlloc_requested_size alignment sz =
     (if sz < alignment then alignment
      else push_bit (kBitsPerSizeT - CountLeadingZeroBitsSizeT (sz - 1)) 1)"

definition AlignedAllocFlags ::
  "'m env \<Rightarrow> build \<Rightarrow> 'm world \<Rightarrow> uintptr_t \<Rightarrow> PartitionAllocFlags set \<Rightarrow> size_t \<Rightarrow> size_t
    \<Rightarrow> crash + (uintptr_t \<times> 'm world)" where
  "AlignedAllocFlags env cfg w this flags alignment sz =
     (case roots w this of
        None \<Rightarrow> Inl Wild_pointer
      | Some root' \<Rightarrow>
          if DCHECK_IS_ON cfg \<and> \<not> (\<not> allow_cookies root' \<and> \<not> allow_ref_count root')
          then Inl PA_DCHECK_failed
          else if \<not> IsPowerOfTwo alignment then Inl PA_CHECK_failed
          else
            (let requested_size = AlignedAlloc_requested_size alignment sz in
             if requested_size < sz then
               (if PartitionAllocReturnNull \<in> flags then Inr (0, w) else Inl OOM_CRASH)
             else
               (case (if PartitionAllocNoHooks \<in> flags
                      then AllocFlagsNoHooks env cfg w this {} requested_size
                      else Alloc env cfg w this requested_size []) of
                  Inl c \<Rightarrow> Inl c
                | Inr (ptr, w') \<Rightarrow>
                    if ptr AND (alignment - 1) \<noteq> 0 then Inl PA_CHECK_failed
                    else Inr (ptr, w'))))"

subsection \<open>Deallocation\<close>

definition FreeNoHooks :: "'m env \<Rightarrow> build \<Rightarrow> 'm world \<Rightarrow> uintptr_t \<Rightarrow> crash + 'm world" where
  "FreeNoHooks env cfg w ptr =
     (if ptr = 0 then Inr w
      else
        (let slot_span = FromPointerNoAlignmentCheck env w ptr in
         if DCHECK_IS_ON cfg \<and> IsValidSlotSpan cfg w slot_span \<noteq> Inr True then Inl PA_DCHECK_failed
         else
         case FromSlotSpan cfg w slot_span of
           Inl c \<Rightarrow> Inl c
         | Inr root' \<Rightarrow>
             (case (roots w root', slot_spans w slot_span) of
                (Some r, Some sp) \<Rightarrow>
                  if pcscan_mode r = kEnabled \<and> \<not> is_direct_mapped env w (bucket sp)
                  then MoveToQuarantine env w ptr slot_span
                  else FreeNoHooksImmediate env w root' ptr slot_span
              | _ \<Rightarrow> Inl Wild_pointer)))"

definition Free :: "'m env \<Rightarrow> build \<Rightarrow> 'm world \<Rightarrow> uintptr_t \<Rightarrow> crash + 'm world" where
  "Free env cfg w ptr =
     (if MEMORY_TOOL_REPLACES_ALLOCATOR cfg then Inr (libc_free env w ptr)
      else if ptr = 0 then Inr w
      else if AreHooksEnabled env w then
        (case FreeOverrideHookIfEnabled env (FreeObserverHookIfEnabled env w ptr) ptr of
           (True, w') \<Rightarrow> Inr w'
         | (False, w') \<Rightarrow> FreeNoHooks env cfg w' ptr)
      else FreeNoHooks env cfg w ptr)"

subsection \<open>A small store\<close>

text \<open>
  A concrete build, root and store, for evaluating the definitions: a release build with
  reference counts on a platform of alignment 8, and a root at address \<open>0x100000\<close> as it
  is before its first allocation, when every bucket has the sentinel slot span (at
  \<open>0x201020\<close>, with an empty free list) as its active slot span. The slow path of the
  example hands out the slot at \<open>0x204000\<close> of a slot span (at \<open>0x201040\<close>) of 4096 bytes
  for requests up to that size and returns \<open>nullptr\<close> for larger ones; there are no hooks
  and no thread cache.
\<close>

definition example_build :: build where
  "example_build =
     \<lparr> DCHECK_IS_ON = False, ENABLE_REF_COUNT_FOR_BACKUP_REF_PTR = True,
       MEMORY_TOOL_REPLACES_ALLOCATOR = False, thread_safe = False, kAlignment = 8,
       MaxDirectMapped = 2147483648, SystemPageBaseMask = NOT 4095, kCookieSize = 16,
       kUninitializedByte = 171 \<rparr>"

definition example_root :: PartitionRoot where
  "example_root =
     \<lparr> pcscan_mode = kNonScannable, with_thread_cache = False, allow_ref_count = True,
       allow_cookies = False, extras_size = 8, extras_offset = 8,
       buckets = map (\<lambda>s. \<lparr> active_slot_spans_head = 2101280, slot_size = s \<rparr>) (InitBucketSizes 8),
       sentinel_bucket = \<lparr> active_slot_spans_head = 2101280, slot_size = 0 \<rparr>,
       initialized = True, inverted_self = NOT 1048576 \<rparr>"

definition example_world :: "unit world" where
  "example_world =
     \<lparr> roots = [1048576 \<mapsto> example_root],
       slot_spans = [2101280 \<mapsto> \<lparr> freelist_head = 0, num_allocated_slots = 0,
                                   bucket = (1048576, kNumBuckets 8) \<rparr>,
                     2101312 \<mapsto> \<lparr> freelist_head = 0, num_allocated_slots = 1,
                                   bucket = (1048576, 0) \<rparr>],
       extent_entry_root = [2101248 \<mapsto> 1048576],
       mem = (\<lambda>a. 0),
       others = () \<rparr>"

definition example_env :: "unit env" where
  "example_env =
     \<lparr> FromPointer = (\<lambda>w p. 2101312),
       FromPointerNoAlignmentCheck = (\<lambda>w p. 2101312),
       GetUtilizedSlotSize = (\<lambda>w s. 4096),
       CanStoreRawSize = (\<lambda>w s. False),
       is_direct_mapped = (\<lambda>w b. False),
       GetNext = (\<lambda>w p. Inr 0),
       SlowPathAlloc = (\<lambda>w this b flags raw. if raw \<le> 4096 then Inr (2113536, False, w) else Inr (0, False, w)),
       ThreadCache_Get = (\<lambda>w. 0),
       ThreadCache_Create = (\<lambda>w this. Inl OOM_CRASH),
       GetFromCache = (\<lambda>w t i. (0, 0, w)),
       AreHooksEnabled = (\<lambda>w. False),
       AllocationOverrideHookIfEnabled = (\<lambda>w flags n t. (None, w)),
       AllocationObserverHookIfEnabled = (\<lambda>w p n t. w),
       FreeObserverHookIfEnabled = (\<lambda>w p. w),
       FreeOverrideHookIfEnabled = (\<lambda>w p. (False, w)),
       MoveToQuarantine = (\<lambda>w p s. Inr w),
       FreeNoHooksImmediate = (\<lambda>w r p s. Inr w),
       PartitionSuperPageToMetadataArea = (\<lambda>p. p + 4096),
       kCookieValue = replicate 16 222,
       PartitionRefCount_bytes = [1, 0, 0, 0, 0, 0, 0, 0],
       libc_malloc = (\<lambda>w n. (0, w)),
       libc_calloc = (\<lambda>w k n. (0, w)),
       libc_free = (\<lambda>w p. w) \<rparr>"

text \<open>
  The store after an allocation from \<open>example_world\<close>: the reference count word at the start
  of the slot and, with \<open>PartitionAllocZeroFill\<close>, zeros from the returned pointer on.
\<close>

definition example_after :: "PartitionAllocFlags set \<Rightarrow> unit world" where
  "example_after flags =
     example_world\<lparr>mem :=
       write_bytes
         (if PartitionAllocZeroFill \<in> flags then memset (mem example_world) 2113544 0 4088
          else mem example_world)
         2113536 [1, 0, 0, 0, 0, 0, 0, 0]\<rparr>"





subsection \<open>What the allocation relies on\<close>

text \<open>
  Modelled from the spec: \<open>PartitionRoot::Init\<close> (partition\_root.cc), the slow path
  (partition\_bucket.cc) and the thread cache (thread\_cache.h) are not part of the sources
  at hand. The predicates of this subsection state what \<open>AllocFlagsNoHooks\<close> relies on
  from them; the theorems on the size and the contents of an allocation have them as
  hypotheses.

  \<open>root_ok\<close>: the root at \<open>this\<close> has the slot sizes of \<open>InitBucketSizes\<close> in its
  buckets (``ActualSize returns the slot size that would be used''), and the slot span of
  its sentinel bucket has an empty free list, so that a request above \<open>kMaxBucketed\<close>
  takes the slow path.
\<close>

definition root_ok :: "build \<Rightarrow> 'm world \<Rightarrow> uintptr_t \<Rightarrow> bool" where
  "root_ok cfg w this =
     (case roots w this of
        None \<Rightarrow> False
      | Some r \<Rightarrow>
          map slot_size (buckets r) = InitBucketSizes (kAlignment cfg) \<and>
          (case slot_spans w (active_slot_spans_head (sentinel_bucket r)) of
             None \<Rightarrow> True
           | Some sp \<Rightarrow> freelist_head sp = 0))"

text \<open>
  \<open>slow_path_ok\<close>: the slot that the slow path returns is large enough, as the comment of
  \<open>RawAlloc\<close> promises (``\<open>utilized_slot_size\<close> is guaranteed to be larger or equal to
  \<open>raw_size\<close>'').
\<close>

definition slow_path_ok :: "'m env \<Rightarrow> uintptr_t \<Rightarrow> bool" where
  "slow_path_ok env this =
     (\<forall>w b flags raw p z w'.
        SlowPathAlloc env w this b flags raw = Inr (p, z, w') \<and> p \<noteq> 0 \<longrightarrow>
          raw \<le> GetUtilizedSlotSize env w' (FromPointer env w' p))"

text \<open>
  \<open>thread_cache_ok\<close>: the thread cache hands out slots of normal buckets only (``the
  thread cache is bypassed for direct-map allocations''), reports the slot size of the
  bucket, and neither it nor its creation changes the slot sizes of the root or the free
  list of the sentinel.
\<close>

definition thread_cache_ok :: "'m env \<Rightarrow> build \<Rightarrow> uintptr_t \<Rightarrow> bool" where
  "thread_cache_ok env cfg this =
     ((\<forall>w tc i p u w'.
         root_ok cfg w this \<and> GetFromCache env w tc i = (p, u, w') \<longrightarrow>
           root_ok cfg w' this \<and>
           (p \<noteq> 0 \<longrightarrow> i < kNumBuckets (kAlignment cfg) \<and> u = InitBucketSizes (kAlignment cfg) ! i)) \<and>
      (\<forall>w tc w'.
         root_ok cfg w this \<and> ThreadCache_Create env w this = Inr (tc, w') \<longrightarrow>
           root_ok cfg w' this))"

text \<open>
  \<open>zeroed_ok\<close>: when the slow path reports \<open>is_already_zeroed\<close>, the bytes of the slot
  are zero (``freshly committed pages'').
\<close>

definition zeroed_ok :: "'m env \<Rightarrow> uintptr_t \<Rightarrow> bool" where
  "zeroed_ok env this =
     (\<forall>w b flags raw p w' a.
        SlowPathAlloc env w this b flags raw = Inr (p, True, w') \<and> p \<noteq> 0 \<and>
        a - p < GetUtilizedSlotSize env w' (FromPointer env w' p) \<longrightarrow>
          mem w' a = 0)"

text \<open>
  \<open>extras_ok\<close>: the extras of a root as the spec describes them. The returned pointer is
  at \<open>extras_offset\<close> (reference count and leading cookie) from the start of the slot,
  \<open>extras_size\<close> is the total of the extras; the reference count word fits before the
  returned pointer, and a cookie is \<open>kCookieSize\<close> bytes, written on both sides.
\<close>

definition extras_ok :: "'m env \<Rightarrow> build \<Rightarrow> PartitionRoot \<Rightarrow> bool" where
  "extras_ok env cfg r =
     (unat (extras_offset r) \<le> unat (extras_size r) \<and>
      (if ENABLE_REF_COUNT_FOR_BACKUP_REF_PTR cfg \<and> allow_ref_count r
       then length (PartitionRefCount_bytes env) \<le> unat (extras_offset r) else True) \<and>
      (if DCHECK_IS_ON cfg \<and> allow_cookies r
       then length (kCookieValue env) = unat (kCookieSize cfg) \<and>
            unat (kCookieSize cfg) \<le> unat (extras_offset r) \<and>
            unat (extras_offset r) + unat (kCookieSize cfg) \<le> unat (extras_size r)
       else True))"




subsection \<open>Closed forms used in the proofs\<close>

text \<open>
  The definitions of this subsection are not part of the program. They name the values
  that the loops above compute, so that the lemmas on the table can be stated:
  \<open>position_nat\<close> is the position read by \<open>GetIndex\<close> as a function of the size as a
  natural number, \<open>bucket_size_word\<close> and \<open>size_nat\<close> are the size of bucket \<open>p\<close>,
  \<open>table_entry\<close> is cell \<open>p\<close> of \<open>bucket_index_lookup_\<close>, and \<open>bucket_index_at\<close> is the
  constructor's \<open>bucket_index\<close> when its outer loop reaches an order.
\<close>

definition position_nat :: "nat \<Rightarrow> nat" where
  "position_nat m =
     8 * floorlog 2 m + (m div 2 ^ (floorlog 2 m - 4)) mod 8
       + (if m mod 2 ^ (floorlog 2 m - 4) \<noteq> 0 then 1 else 0)"

definition bucket_size_word :: "size_t \<Rightarrow> size_t \<Rightarrow> nat \<Rightarrow> size_t" where
  "bucket_size_word cs ci p = push_bit (p div 8) (cs + of_nat (p mod 8) * ci)"

definition size_nat :: "nat \<Rightarrow> nat \<Rightarrow> nat" where
  "size_nat al p = (8 + p mod 8) * 2 ^ (p div 8 + kMinBucketedOrder al - 4)"

definition table_entry :: "nat \<Rightarrow> nat \<Rightarrow> nat" where
  "table_entry al p =
     (if p div 8 < kMinBucketedOrder al then 0
      else if p div 8 > kMaxBucketedOrder then kNumBuckets al
      else the (valid_bucket_index_from al (InitBucketSizes al) (p - 8 * kMinBucketedOrder al)))"

definition bucket_index_at :: "nat \<Rightarrow> nat \<Rightarrow> nat" where
  "bucket_index_at al order = 8 * (min order (kMaxBucketedOrder + 1) - kMinBucketedOrder al)"

section \<open>Lemmas on the bucket table\<close>

declare valid_bucket_index_from.simps [simp del]

subsection \<open>The order of a size is its number of significant bits\<close>

lemma floorlog2_eqI: "2 ^ k \<le> x \<Longrightarrow> x < 2 ^ Suc k \<Longrightarrow> floorlog 2 x = Suc k"
proof -
  assume lo: "2 ^ k \<le> x" and hi: "x < 2 ^ Suc k"
  have "floorlog 2 x \<le> Suc k" using hi by (intro floorlog_leI) auto
  moreover have "\<not> floorlog 2 x \<le> k"
  proof
    assume "floorlog 2 x \<le> k"
    then have "x < 2 ^ k" by (rule floorlog_leD) simp
    with lo show False by simp
  qed
  ultimately show ?thesis by simp
qed

lemma clz_from_le: "clz_from k v \<le> k"
  by (induction k) auto

lemma clz_from_floorlog: "k \<le> 64 \<Longrightarrow> k - clz_from k v = floorlog 2 (unat v mod 2 ^ k)"
proof (induction k)
  case 0 then show ?case by (simp add: floorlog_def)
next
  case (Suc k)
  then have k: "k < 64" and IH: "k - clz_from k v = floorlog 2 (unat v mod 2 ^ k)" by simp_all
  have bit_eq: "bit v k \<longleftrightarrow> odd (unat v div 2 ^ k)"
  proof -
    have "bit v k \<longleftrightarrow> bit (unat v) k" by (simp add: bit_unsigned_iff)
    then show ?thesis by (simp only: bit_iff_odd)
  qed
  have split: "unat v mod 2 ^ Suc k = 2 ^ k * (unat v div 2 ^ k mod 2) + unat v mod 2 ^ k"
    using mod_mult2_eq [of "unat v" "2 ^ k" 2] by (simp add: mult.commute)
  show ?case
  proof (cases "bit v k")
    case True
    then have "odd (unat v div 2 ^ k)" using bit_eq by simp
    then have "unat v mod 2 ^ Suc k = 2 ^ k + unat v mod 2 ^ k"
      using split by (simp add: odd_iff_mod_2_eq_one)
    moreover have "unat v mod 2 ^ k < 2 ^ k" by simp
    ultimately have "floorlog 2 (unat v mod 2 ^ Suc k) = Suc k"
      by (intro floorlog2_eqI) simp_all
    with True show ?thesis by simp
  next
    case False
    then have "even (unat v div 2 ^ k)" using bit_eq by simp
    then have "unat v mod 2 ^ Suc k = unat v mod 2 ^ k"
      using split by simp
    with False IH clz_from_le [of k v] show ?thesis by simp
  qed
qed

lemma GetIndex_order_floorlog: "GetIndex_order v = floorlog 2 (unat v)"
proof -
  have "unat v < 2 ^ 64" using unsigned_less [of v] by simp
  then show ?thesis
    using clz_from_floorlog [of 64 v]
    by (simp add: GetIndex_order_def CountLeadingZeroBitsSizeT_def kBitsPerSizeT_def)
qed

lemma GetIndex_order_le: "GetIndex_order v \<le> 64"
proof -
  have "unat v < 2 ^ 64" using unsigned_less [of v] by simp
  then have "floorlog 2 (unat v) \<le> 64" by (intro floorlog_leI) auto
  then show ?thesis by (simp add: GetIndex_order_floorlog)
qed

lemma kOrderIndexShift_nth: "order \<le> 64 \<Longrightarrow> kOrderIndexShift ! order = order - 4"
  by (simp add: kOrderIndexShift_def kBitsPerSizeT_def OrderIndexShift_def
      kNumBucketsPerOrderBits_def del: upt_Suc)

lemma OrderSubIndexMask_mask:
  assumes "order \<le> 64"
  shows "OrderSubIndexMask order = mask (order - 4)"
proof (cases "order = 64")
  case True
  have "drop_bit 4 (- 1 :: size_t) = mask 60"
    by (rule bit_word_eqI) (auto simp: bit_simps)
  with True show ?thesis
    by (simp add: OrderSubIndexMask_def kBitsPerSizeT_def kNumBucketsPerOrderBits_def)
next
  case False
  have "push_bit order 1 - 1 = (mask order :: size_t)"
    by (simp add: mask_eq_exp_minus_1 push_bit_eq_mult)
  moreover have "drop_bit 4 (mask order :: size_t) = mask (order - 4)"
  proof (rule bit_word_eqI)
    fix n assume "n < LENGTH(64)"
    then show "bit (drop_bit 4 (mask order :: size_t)) n = bit (mask (order - 4) :: size_t) n"
      using assms by (auto simp: bit_simps)
  qed
  ultimately show ?thesis using False
    by (simp add: OrderSubIndexMask_def kBitsPerSizeT_def kNumBucketsPerOrderBits_def)
qed

lemma kOrderSubIndexMask_nth: "order \<le> 64 \<Longrightarrow> kOrderSubIndexMask ! order = mask (order - 4)"
  using OrderSubIndexMask_mask [of order]
  by (simp add: kOrderSubIndexMask_def kBitsPerSizeT_def del: upt_Suc)

lemma unat_order_index:
  "unat (GetIndex_order_index v) = (unat v div 2 ^ (GetIndex_order v - 4)) mod 8"
proof -
  have "(of_nat kNumBucketsPerOrder - 1 :: size_t) = mask 3"
    by (simp add: kNumBucketsPerOrder_def kNumBucketsPerOrderBits_def mask_eq_exp_minus_1)
  then have "GetIndex_order_index v = take_bit 3 (drop_bit (GetIndex_order v - 4) v)"
    by (simp add: GetIndex_order_index_def kOrderIndexShift_nth GetIndex_order_le take_bit_eq_mask)
  then have "unat (GetIndex_order_index v) = take_bit 3 (drop_bit (GetIndex_order v - 4) (unat v))"
    by (simp add: unsigned_take_bit_eq unat_drop_bit_eq)
  also have "\<dots> = (unat v div 2 ^ (GetIndex_order v - 4)) mod 8"
    by (simp add: take_bit_eq_mod drop_bit_eq_div)
  finally show ?thesis .
qed

lemma sub_order_index_zero:
  "GetIndex_sub_order_index v = 0 \<longleftrightarrow> unat v mod 2 ^ (GetIndex_order v - 4) = 0"
proof -
  have "GetIndex_sub_order_index v = take_bit (GetIndex_order v - 4) v"
    by (simp add: GetIndex_sub_order_index_def kOrderSubIndexMask_nth GetIndex_order_le
        take_bit_eq_mask)
  then have "unat (GetIndex_sub_order_index v) = take_bit (GetIndex_order v - 4) (unat v)"
    by (simp add: unsigned_take_bit_eq)
  also have "\<dots> = unat v mod 2 ^ (GetIndex_order v - 4)"
    by (simp add: take_bit_eq_mod)
  finally show ?thesis by (metis unsigned_eq_0_iff)
qed

lemma GetIndex_position_nat: "GetIndex_position v = position_nat (unat v)"
  by (simp add: GetIndex_position_def position_nat_def unat_order_index sub_order_index_zero
      kNumBucketsPerOrderBits_def push_bit_eq_mult GetIndex_order_floorlog)

lemma ceil_div_eq:
  fixes m k :: nat
  assumes "0 < k"
  shows "m div k + (if m mod k \<noteq> 0 then 1 else 0) = (m + k - 1) div k"
proof (cases "m mod k = 0")
  case True
  then obtain d where m: "m = d * k" by (metis mod_eq_0_iff_dvd dvd_def mult.commute)
  have e: "m + k - 1 = d * k + (k - 1)" using assms m by simp
  have "(d * k + (k - 1)) div k = d + (k - 1) div k"
    using assms by (intro div_mult_self3) simp
  moreover have "(k - 1) div k = 0" using assms by simp
  ultimately have "(m + k - 1) div k = d" by (simp only: e)
  moreover have "m div k = d" using m assms by simp
  ultimately show ?thesis using True by simp
next
  case False
  define r where "r = m mod k"
  define d where "d = m div k"
  have m: "m = d * k + r" by (simp add: r_def d_def)
  have r: "0 < r" "r < k" using False assms by (simp_all add: r_def)
  then have e: "m + k - 1 = (d + 1) * k + (r - 1)" by (simp add: m)
  have "((d + 1) * k + (r - 1)) div k = (d + 1) + (r - 1) div k"
    using assms by (intro div_mult_self3) simp
  moreover have "(r - 1) div k = 0" using r by simp
  ultimately have "(m + k - 1) div k = d + 1" by (simp only: e)
  then show ?thesis using False by (simp add: d_def)
qed

lemma floorlog2_pos_bounds:
  assumes "0 < m"
  shows "2 ^ (floorlog 2 m - 1) \<le> m" and "m < 2 ^ floorlog 2 m"
  using floorlog_bounds [of m 2] assms by simp_all

lemma floorlog2_ge4: "8 \<le> m \<Longrightarrow> 4 \<le> floorlog 2 m"
proof (rule ccontr)
  assume m: "8 \<le> m" and "\<not> 4 \<le> floorlog 2 m"
  then have "floorlog 2 m \<le> 3" by simp
  then have "m < 2 ^ 3" by (rule floorlog_leD) simp
  with m show False by simp
qed

lemma floorlog2_lt4: "m < 8 \<Longrightarrow> floorlog 2 m \<le> 3"
  by (rule floorlog_leI) simp_all

lemma position_nat_small: "m < 8 \<Longrightarrow> position_nat m = 8 * floorlog 2 m + m"
  using floorlog2_lt4 [of m] by (simp add: position_nat_def)

lemma div_order_bounds:
  assumes "8 \<le> m"
  shows "8 \<le> m div 2 ^ (floorlog 2 m - 4)" and "m div 2 ^ (floorlog 2 m - 4) < 16"
proof -
  obtain s where o': "floorlog 2 m = s + 4"
    using floorlog2_ge4 [OF assms] by (metis le_add_diff_inverse2)
  have lo: "8 * 2 ^ s \<le> m" and hi: "m < 16 * 2 ^ s"
    using floorlog2_pos_bounds [of m] assms by (simp_all add: o' power_add)
  show "8 \<le> m div 2 ^ (floorlog 2 m - 4)"
    using lo by (simp add: o' less_eq_div_iff_mult_less_eq)
  show "m div 2 ^ (floorlog 2 m - 4) < 16"
    using hi by (simp add: o' less_mult_imp_div_less)
qed

lemma position_nat_large:
  assumes "8 \<le> m"
  shows "position_nat m =
           8 * (floorlog 2 m - 1) + (m + 2 ^ (floorlog 2 m - 4) - 1) div 2 ^ (floorlog 2 m - 4)"
proof -
  define k :: nat where "k = 2 ^ (floorlog 2 m - 4)"
  have k: "0 < k" by (simp add: k_def)
  have d: "8 \<le> m div k" "m div k < 16" using div_order_bounds [OF assms] by (simp_all add: k_def)
  then have "(m div k) mod 8 = m div k - 8"
    by (metis add_diff_cancel_left' le_add_diff_inverse mod_add_self1 mod_less
        add_less_cancel_left numeral_Bit0 ) 
  moreover have "1 \<le> floorlog 2 m" using floorlog2_ge4 [OF assms] by simp
  ultimately have "position_nat m
      = 8 * (floorlog 2 m - 1) + (m div k + (if m mod k \<noteq> 0 then 1 else 0))"
    using d by (simp add: position_nat_def k_def [symmetric] algebra_simps)
  also have "m div k + (if m mod k \<noteq> 0 then 1 else 0) = (m + k - 1) div k"
    by (rule ceil_div_eq [OF k])
  finally show ?thesis by (simp only: k_def)
qed

lemma position_nat_bounds:
  "8 * floorlog 2 m \<le> position_nat m" "position_nat m \<le> 8 * floorlog 2 m + 8"
proof -
  have "(m div 2 ^ (floorlog 2 m - 4)) mod 8 < 8" by simp
  then have "(m div 2 ^ (floorlog 2 m - 4)) mod 8 \<le> 7" by linarith
  then show "position_nat m \<le> 8 * floorlog 2 m + 8"
    unfolding position_nat_def by (simp split: if_splits)
  show "8 * floorlog 2 m \<le> position_nat m" by (simp add: position_nat_def)
qed

lemma position_nat_mono:
  assumes "m1 \<le> m2"
  shows "position_nat m1 \<le> position_nat m2"
proof (cases "floorlog 2 m1 = floorlog 2 m2")
  case False
  then have "floorlog 2 m1 < floorlog 2 m2"
    using floorlog_mono [OF assms, of 2] by simp
  then have "8 * floorlog 2 m1 + 8 \<le> 8 * floorlog 2 m2" by simp
  then show ?thesis
    using position_nat_bounds(2) [of m1] position_nat_bounds(1) [of m2] by linarith
next
  case same: True
  show ?thesis
  proof (cases "m2 < 8")
    case True
    then show ?thesis using assms same by (simp add: position_nat_small)
  next
    case False
    then have m2: "8 \<le> m2" by simp
    have "4 \<le> floorlog 2 m1" using floorlog2_ge4 [OF m2] same by simp
    then have m1: "8 \<le> m1" using floorlog2_lt4 [of m1] by (cases "m1 < 8") simp_all
    have "(m1 + 2 ^ (floorlog 2 m2 - 4) - 1) div 2 ^ (floorlog 2 m2 - 4)
        \<le> (m2 + 2 ^ (floorlog 2 m2 - 4) - 1) div 2 ^ (floorlog 2 m2 - 4)"
      using assms by (intro div_le_mono) simp
    then show ?thesis
      by (simp add: position_nat_large [OF m1] position_nat_large [OF m2] same)
  qed
qed

lemma position_nat_le: "m < 2 ^ 64 \<Longrightarrow> position_nat m \<le> 520"
proof -
  assume "m < 2 ^ 64"
  then have "floorlog 2 m \<le> 64" by (intro floorlog_leI) auto
  then show ?thesis using position_nat_bounds(2) [of m] by simp
qed

lemma InitBucketSizes_inner_eq:
  "InitBucketSizes_inner k cs ci bs =
     (cs + of_nat k * ci, bs @ map (\<lambda>j. cs + of_nat j * ci) [0..<k])"
proof (induction k arbitrary: cs bs)
  case 0
  show ?case by simp
next
  case (Suc k)
  have "map (\<lambda>j. cs + of_nat j * ci) [0..<Suc k]
      = cs # map (\<lambda>j. cs + ci + of_nat j * ci) [0..<k]"
    by (simp only: map_upt_Suc) (simp add: algebra_simps)
  then show ?case
    by (simp only: InitBucketSizes_inner.simps Suc.IH) (simp add: algebra_simps)
qed

lemma InitBucketSizes_outer_eq:
  "cs = 8 * ci \<Longrightarrow>
   InitBucketSizes_outer k cs ci bs = bs @ map (bucket_size_word cs ci) [0..<8 * k]"
proof (induction k arbitrary: cs ci bs)
  case 0
  show ?case by simp
next
  case (Suc k)
  have next_cs: "cs + of_nat kNumBucketsPerOrder * ci = 8 * push_bit 1 ci"
    using Suc.prems by (simp add: kNumBucketsPerOrder_def kNumBucketsPerOrderBits_def push_bit_eq_mult)
  have shift: "bucket_size_word (8 * push_bit 1 ci) (push_bit 1 ci) p = bucket_size_word cs ci (p + 8)" for p
    using Suc.prems by (simp add: bucket_size_word_def push_bit_eq_mult algebra_simps)
  have first: "map (\<lambda>j. cs + of_nat j * ci) [0..<8] = map (bucket_size_word cs ci) [0..<8]"
    by (rule map_cong) (simp_all add: bucket_size_word_def)
  have "[0..<8 * Suc k] = [0..<8] @ [8..<8 + 8 * k]"
    by (metis add.commute mult_Suc_right upt_add_eq_append zero_le)
  moreover have "[8..<8 + 8 * k] = map (\<lambda>p. p + 8) [0..<8 * k]"
    by (simp add: map_add_upt add.commute)
  ultimately have split:
    "map (bucket_size_word cs ci) [0..<8 * Suc k]
      = map (bucket_size_word cs ci) [0..<8] @ map (\<lambda>p. bucket_size_word cs ci (p + 8)) [0..<8 * k]"
    by (simp only: map_append map_map o_def)
  show ?case
    by (simp only: InitBucketSizes_outer.simps InitBucketSizes_inner_eq prod.case next_cs
        Suc.IH [OF refl] shift split)
      (simp add: first kNumBucketsPerOrder_def kNumBucketsPerOrderBits_def)
qed

lemma valid_bucket_index_from_Some:
  "valid_bucket_index_from al bs b = Some v \<Longrightarrow>
     b \<le> v \<and> v < length bs \<and> bs ! v mod kSmallestBucket al = 0"
proof (induction al bs b rule: valid_bucket_index_from.induct)
  case (1 al bs b)
  show ?case
  proof (cases "length bs \<le> b")
    case True
    with "1.prems" show ?thesis by (simp add: valid_bucket_index_from.simps [of al bs b])
  next
    case inside: False
    show ?thesis
    proof (cases "bs ! b mod kSmallestBucket al \<noteq> 0")
      case True
      with inside "1.prems" have "valid_bucket_index_from al bs (b + 1) = Some v"
        by (simp add: valid_bucket_index_from.simps [of al bs b])
      from "1.IH" [OF inside True this] show ?thesis by simp
    next
      case False
      with inside "1.prems" show ?thesis
        by (simp add: valid_bucket_index_from.simps [of al bs b])
    qed
  qed
qed

lemma valid_bucket_index_from_exists:
  "b \<le> u \<Longrightarrow> u < length bs \<Longrightarrow> bs ! u mod kSmallestBucket al = 0 \<Longrightarrow>
     \<exists>v. valid_bucket_index_from al bs b = Some v \<and> v \<le> u"
proof (induction al bs b rule: valid_bucket_index_from.induct)
  case (1 al bs b)
  from "1.prems" have inside: "\<not> length bs \<le> b" by simp
  show ?case
  proof (cases "bs ! b mod kSmallestBucket al \<noteq> 0")
    case True
    with "1.prems"(3) have "b \<noteq> u" by blast
    with "1.prems" have "b + 1 \<le> u" by simp
    with "1.IH" [OF inside True] "1.prems"
    obtain v where "valid_bucket_index_from al bs (b + 1) = Some v" "v \<le> u" by blast
    with inside True show ?thesis
      by (simp add: valid_bucket_index_from.simps [of al bs b])
  next
    case False
    with inside "1.prems" show ?thesis
      by (simp add: valid_bucket_index_from.simps [of al bs b])
  qed
qed

lemma valid_bucket_index_from_mono:
  assumes "valid_bucket_index_from al bs b = Some v"
    and "valid_bucket_index_from al bs b' = Some v'"
    and "b \<le> b'"
  shows "v \<le> v'"
proof -
  from valid_bucket_index_from_Some [OF assms(2)]
  have "b' \<le> v'" "v' < length bs" "bs ! v' mod kSmallestBucket al = 0" by simp_all
  with assms(3) valid_bucket_index_from_exists [of b v' bs al]
  obtain w where "valid_bucket_index_from al bs b = Some w" "w \<le> v'" by auto
  with assms(1) show ?thesis by simp
qed

lemma kSmallestBucket_eq: "kSmallestBucket al = 8 * drop_bit kNumBucketsPerOrderBits (kSmallestBucket al)"
  by (simp add: kSmallestBucket_def kMinBucketedOrder_def kNumBucketsPerOrderBits_def)

lemma InitBucketSizes_eq:
  "InitBucketSizes al =
     map (bucket_size_word (kSmallestBucket al) (drop_bit kNumBucketsPerOrderBits (kSmallestBucket al)))
       [0..<kNumBuckets al]"
  unfolding InitBucketSizes_def
  by (subst InitBucketSizes_outer_eq [OF kSmallestBucket_eq])
    (simp add: kNumBuckets_def kNumBucketsPerOrder_def kNumBucketsPerOrderBits_def mult.commute)

lemma length_InitBucketSizes: "length (InitBucketSizes al) = kNumBuckets al"
  by (simp add: InitBucketSizes_eq)

lemma InitBucketSizes_nth:
  assumes "p < kNumBuckets al"
  shows "InitBucketSizes al ! p = of_nat (size_nat al p)"
proof -
  have ksb: "kSmallestBucket al = 8 * 2 ^ (kMinBucketedOrder al - 4)"
    by (simp add: kSmallestBucket_def kMinBucketedOrder_def)
  have inc: "drop_bit kNumBucketsPerOrderBits (kSmallestBucket al) = 2 ^ (kMinBucketedOrder al - 4)"
    by (simp add: kSmallestBucket_def kMinBucketedOrder_def kNumBucketsPerOrderBits_def)
  have "4 \<le> kMinBucketedOrder al" by (simp add: kMinBucketedOrder_def)
  then have "p div 8 + kMinBucketedOrder al - 4 = p div 8 + (kMinBucketedOrder al - 4)" by simp
  then have "bucket_size_word (kSmallestBucket al) (drop_bit kNumBucketsPerOrderBits (kSmallestBucket al)) p
      = of_nat (size_nat al p)"
    by (simp only: inc bucket_size_word_def size_nat_def)
      (simp add: ksb push_bit_eq_mult power_add algebra_simps)
  with assms show ?thesis by (simp add: InitBucketSizes_eq)
qed

lemma size_nat_le:
  assumes "p < kNumBuckets al"
  shows "size_nat al p \<le> 983040"
proof -
  have "p div 8 < kNumBucketedOrders al"
    using assms by (simp add: kNumBuckets_def kNumBucketsPerOrder_def kNumBucketsPerOrderBits_def
        less_mult_imp_div_less)
  then have e: "p div 8 + kMinBucketedOrder al - 4 \<le> 16"
    by (simp add: kNumBucketedOrders_def kMaxBucketedOrder_def kMinBucketedOrder_def split: if_splits)
  have "p mod 8 < 8" by simp
  then have "8 + p mod 8 \<le> 15" by linarith
  moreover have "(2::nat) ^ (p div 8 + kMinBucketedOrder al - 4) \<le> 2 ^ 16"
    using e by (intro power_increasing) simp_all
  ultimately have "size_nat al p \<le> 15 * 2 ^ 16"
    unfolding size_nat_def by (rule mult_mono) simp_all
  then show ?thesis by simp
qed

lemma unat_InitBucketSizes_nth:
  assumes "p < kNumBuckets al"
  shows "unat (InitBucketSizes al ! p) = size_nat al p"
proof -
  have "size_nat al p < 2 ^ 64" using size_nat_le [OF assms] by simp
  then show ?thesis
    by (simp add: InitBucketSizes_nth [OF assms] unat_of_nat take_bit_nat_eq_self_iff)
qed

lemma kNumBuckets_pos: "0 < kNumBuckets al"
  by (simp add: kNumBuckets_def kNumBucketedOrders_def kNumBucketsPerOrder_def)

lemma last_bucket_valid:
  "InitBucketSizes al ! (kNumBuckets al - 1) mod kSmallestBucket al = 0"
proof -
  have "kNumBuckets al - 1 < kNumBuckets al" using kNumBuckets_pos [of al] by simp
  then have "InitBucketSizes al ! (kNumBuckets al - 1) = of_nat (size_nat al (kNumBuckets al - 1))"
    by (rule InitBucketSizes_nth)
  also have "size_nat al (kNumBuckets al - 1) = 983040"
    by (simp add: size_nat_def kNumBuckets_def kNumBucketedOrders_def kNumBucketsPerOrder_def
        kNumBucketsPerOrderBits_def kMaxBucketedOrder_def kMinBucketedOrder_def)
  finally show ?thesis
    by (simp add: kSmallestBucket_def kMinBucketedOrder_def)
qed

lemma valid_bucket_index_total:
  assumes "b < kNumBuckets al"
  shows "\<exists>v. valid_bucket_index_from al (InitBucketSizes al) b = Some v \<and> b \<le> v \<and> v < kNumBuckets al"
proof -
  have "b \<le> kNumBuckets al - 1" "kNumBuckets al - 1 < length (InitBucketSizes al)"
    using assms by (simp_all add: length_InitBucketSizes)
  from valid_bucket_index_from_exists [OF this last_bucket_valid]
  obtain v where v: "valid_bucket_index_from al (InitBucketSizes al) b = Some v" by blast
  from valid_bucket_index_from_Some [OF v] show ?thesis
    using v by (simp add: length_InitBucketSizes)
qed

lemma fill_order_low:
  "order < kMinBucketedOrder al \<Longrightarrow>
     fill_order k al bs order bi tbl = Some (bi, tbl @ replicate k 0)"
  by (induction k arbitrary: tbl) (simp_all add: replicate_app_Cons_same)

lemma fill_order_high:
  "order > kMaxBucketedOrder \<Longrightarrow>
     fill_order k al bs order bi tbl = Some (bi, tbl @ replicate k (kNumBuckets al))"
  by (induction k arbitrary: tbl)
    (simp_all add: replicate_app_Cons_same kMaxBucketedOrder_def kMinBucketedOrder_def)

lemma fill_order_mid:
  "kMinBucketedOrder al \<le> order \<Longrightarrow> order \<le> kMaxBucketedOrder \<Longrightarrow> bi + k \<le> kNumBuckets al \<Longrightarrow>
     fill_order k al (InitBucketSizes al) order bi tbl =
       Some (bi + k, tbl @ map (\<lambda>j. the (valid_bucket_index_from al (InitBucketSizes al) (bi + j))) [0..<k])"
proof (induction k arbitrary: bi tbl)
  case 0
  show ?case by simp
next
  case (Suc k)
  from Suc.prems have "bi < kNumBuckets al" by simp
  from valid_bucket_index_total [OF this]
  obtain v where v: "valid_bucket_index_from al (InitBucketSizes al) bi = Some v" by blast
  have "bi + 1 + k \<le> kNumBuckets al" using Suc.prems by simp
  from Suc.IH [OF Suc.prems(1,2) this]
  show ?case using Suc.prems(1,2) v
    by (simp only: fill_order.simps map_upt_Suc) simp
qed

lemma fill_order_step:
  assumes "order \<le> 64"
  shows "fill_order kNumBucketsPerOrder al (InitBucketSizes al) order (bucket_index_at al order) tbl =
      Some (bucket_index_at al (Suc order), tbl @ map (\<lambda>j. table_entry al (8 * order + j)) [0..<8])"
proof -
  have k8: "kNumBucketsPerOrder = 8"
    by (simp add: kNumBucketsPerOrder_def kNumBucketsPerOrderBits_def)
  have div8: "(8 * order + j) div 8 = order" if "j < 8" for j using that by simp
  consider (low) "order < kMinBucketedOrder al" | (high) "order > kMaxBucketedOrder"
    | (mid) "kMinBucketedOrder al \<le> order" "order \<le> kMaxBucketedOrder" by linarith
  then show ?thesis
  proof cases
    case low
    have "map (\<lambda>j. table_entry al (8 * order + j)) [0..<8] = map (\<lambda>j. 0) [0..<8]"
      by (rule map_cong) (simp_all add: table_entry_def div8 low)
    then show ?thesis using low
      by (simp add: fill_order_low k8 bucket_index_at_def map_replicate_const)
  next
    case high
    then have nl: "\<not> order < kMinBucketedOrder al"
      by (simp add: kMaxBucketedOrder_def kMinBucketedOrder_def)
    have "map (\<lambda>j. table_entry al (8 * order + j)) [0..<8] = map (\<lambda>j. kNumBuckets al) [0..<8]"
      by (rule map_cong) (simp_all add: table_entry_def div8 high nl)
    then show ?thesis using high
      by (simp add: fill_order_high k8 bucket_index_at_def map_replicate_const)
  next
    case mid
    have bi: "bucket_index_at al order = 8 * (order - kMinBucketedOrder al)"
      and bi': "bucket_index_at al (Suc order) = bucket_index_at al order + 8"
      using mid by (simp_all add: bucket_index_at_def kMaxBucketedOrder_def)
    have le: "bucket_index_at al order + 8 \<le> kNumBuckets al"
      using mid by (simp add: bi kNumBuckets_def kNumBucketedOrders_def k8)
    have "map (\<lambda>j. table_entry al (8 * order + j)) [0..<8]
        = map (\<lambda>j. the (valid_bucket_index_from al (InitBucketSizes al) (bucket_index_at al order + j))) [0..<8]"
    proof (rule map_cong)
      fix j assume "j \<in> set [0..<8]"
      then have j: "j < 8" by simp
      have "8 * order + j - 8 * kMinBucketedOrder al = bucket_index_at al order + j"
        using mid by (simp add: bi algebra_simps)
      then show "table_entry al (8 * order + j)
          = the (valid_bucket_index_from al (InitBucketSizes al) (bucket_index_at al order + j))"
        using mid by (simp add: table_entry_def div8 [OF j])
    qed simp
    then show ?thesis
      using fill_order_mid [OF mid le] by (simp add: k8 bi')
  qed
qed

lemma fill_orders_eq:
  assumes "k \<le> 65"
    and "tbl = map (table_entry al) [0..<8 * (65 - k)]"
    and "bi = bucket_index_at al (65 - k)"
  shows "fill_orders k al (InitBucketSizes al) bi tbl =
           Some (bucket_index_at al 65, map (table_entry al) [0..<520])"
  using assms
proof (induction k arbitrary: bi tbl)
  case 0
  then show ?case by simp
next
  case (Suc k)
  define order where "order = 64 - k"
  have order: "order \<le> 64" "65 - Suc k = order" "65 - k = Suc order"
    using Suc.prems(1) by (simp_all add: order_def)
  have "[0..<8 * order + 8] = [0..<8 * order] @ [8 * order..<8 * order + 8]"
    by (rule upt_add_eq_append) simp
  moreover have "[8 * order..<8 * order + 8] = map (\<lambda>j. 8 * order + j) [0..<8]"
    by (simp only: map_add_upt add.commute [of "8 * order"])
  moreover have "8 * Suc order = 8 * order + 8" by simp
  ultimately have "[0..<8 * Suc order] = [0..<8 * order] @ map (\<lambda>j. 8 * order + j) [0..<8]"
    by (simp only:)
  then have tbl': "tbl @ map (\<lambda>j. table_entry al (8 * order + j)) [0..<8]
      = map (table_entry al) [0..<8 * (65 - k)]"
    by (simp only: order Suc.prems(2) map_append map_map o_def)
  have k: "k \<le> 65" using Suc.prems(1) by simp
  have "fill_orders (Suc k) al (InitBucketSizes al) bi tbl
      = fill_orders k al (InitBucketSizes al) (bucket_index_at al (Suc order))
          (tbl @ map (\<lambda>j. table_entry al (8 * order + j)) [0..<8])"
    using fill_order_step [OF order(1), of al tbl]
    by (simp add: Suc.prems(3) order(2) kBitsPerSizeT_def order_def [symmetric])
  also have "\<dots> = Some (bucket_index_at al 65, map (table_entry al) [0..<520])"
    by (rule Suc.IH [OF k tbl']) (simp only: order)
  finally show ?case .
qed

lemma table_entry_last: "table_entry al 520 = kNumBuckets al"
  by (simp add: table_entry_def kMinBucketedOrder_def kMaxBucketedOrder_def)

lemma BucketIndexLookup_eq:
  "BucketIndexLookup al =
     Some \<lparr> bucket_sizes_tbl = InitBucketSizes al,
            bucket_index_lookup = map (table_entry al) [0..<521] \<rparr>"
proof -
  have "fill_orders 65 al (InitBucketSizes al) 0 [] =
          Some (bucket_index_at al 65, map (table_entry al) [0..<520])"
    by (rule fill_orders_eq) (simp_all add: bucket_index_at_def)
  moreover have "[0..<521] = [0..<520] @ [520]"
    using upt_Suc_append [of 0 520] by simp
  ultimately show ?thesis
    by (simp add: BucketIndexLookup_def kBitsPerSizeT_def table_entry_last del: upt_Suc)
qed

lemma GetIndex_position_le: "GetIndex_position v \<le> 520"
proof -
  have "unat v < 2 ^ 64" using unsigned_less [of v] by simp
  then show ?thesis by (simp add: GetIndex_position_nat position_nat_le)
qed

lemma GetIndex_eq: "GetIndex al v = Some (table_entry al (GetIndex_position v))"
  using GetIndex_position_le [of v]
  by (simp add: GetIndex_def BucketIndexLookup_eq del: upt_Suc)

lemma mid_bucket_index:
  assumes "kMinBucketedOrder al \<le> p div 8" "p div 8 \<le> kMaxBucketedOrder"
  shows "p - 8 * kMinBucketedOrder al < kNumBuckets al"
  using assms
  by (simp add: kNumBuckets_def kNumBucketedOrders_def kNumBucketsPerOrder_def
      kNumBucketsPerOrderBits_def kMaxBucketedOrder_def)

lemma table_entry_mid:
  assumes "kMinBucketedOrder al \<le> p div 8" "p div 8 \<le> kMaxBucketedOrder"
  shows "valid_bucket_index_from al (InitBucketSizes al) (p - 8 * kMinBucketedOrder al)
           = Some (table_entry al p)"
    and "p - 8 * kMinBucketedOrder al \<le> table_entry al p"
    and "table_entry al p < kNumBuckets al"
  using valid_bucket_index_total [OF mid_bucket_index [OF assms]] assms
  by (auto simp: table_entry_def)

lemma table_entry_le: "table_entry al p \<le> kNumBuckets al"
proof -
  consider (low) "p div 8 < kMinBucketedOrder al" | (high) "p div 8 > kMaxBucketedOrder"
    | (mid) "kMinBucketedOrder al \<le> p div 8" "p div 8 \<le> kMaxBucketedOrder" by linarith
  then show ?thesis
  proof cases
    case mid
    then show ?thesis using table_entry_mid(3) [of al p] by simp
  qed (simp_all add: table_entry_def)
qed

lemma table_entry_mono:
  assumes "p \<le> q"
  shows "table_entry al p \<le> table_entry al q"
proof -
  have pq: "p div 8 \<le> q div 8" using assms by (rule div_le_mono)
  consider (low) "p div 8 < kMinBucketedOrder al" | (high) "q div 8 > kMaxBucketedOrder"
    | (mid) "kMinBucketedOrder al \<le> p div 8" "q div 8 \<le> kMaxBucketedOrder" by linarith
  then show ?thesis
  proof cases
    case low
    then show ?thesis by (simp add: table_entry_def)
  next
    case high
    then have "table_entry al q = kNumBuckets al"
      by (simp add: table_entry_def kMaxBucketedOrder_def kMinBucketedOrder_def)
    then show ?thesis using table_entry_le [of al p] by simp
  next
    case mid
    with pq have p: "kMinBucketedOrder al \<le> p div 8" "p div 8 \<le> kMaxBucketedOrder"
      and q: "kMinBucketedOrder al \<le> q div 8" "q div 8 \<le> kMaxBucketedOrder" by simp_all
    have "p - 8 * kMinBucketedOrder al \<le> q - 8 * kMinBucketedOrder al"
      using assms by simp
    from valid_bucket_index_from_mono [OF table_entry_mid(1) [OF p] table_entry_mid(1) [OF q] this]
    show ?thesis .
  qed
qed

lemma GetIndex_position_mono:
  "n1 \<le> n2 \<Longrightarrow> GetIndex_position n1 \<le> GetIndex_position n2"
  by (simp add: GetIndex_position_nat position_nat_mono word_le_nat_alt)

lemma floorlog_983040: "floorlog 2 983040 = 20" "floorlog 2 983041 = 20"
  by (rule floorlog2_eqI [of 19, simplified]; simp)+

lemma position_nat_983040: "position_nat 983040 = 167" "position_nat 983041 = 168"
  by (simp_all add: position_nat_def floorlog_983040)

lemma kMaxBucketed_eq: "kMaxBucketed = 983040"
  by (simp add: kMaxBucketed_def kMaxBucketSpacing_def kMaxBucketedOrder_def
      kNumBucketsPerOrder_def kNumBucketsPerOrderBits_def)

lemma GetIndex_position_bucketed:
  "n \<le> kMaxBucketed \<longleftrightarrow> GetIndex_position n \<le> 167"
proof
  assume "n \<le> kMaxBucketed"
  then have "unat n \<le> 983040" by (simp add: kMaxBucketed_eq word_le_nat_alt)
  from position_nat_mono [OF this] show "GetIndex_position n \<le> 167"
    by (simp add: GetIndex_position_nat position_nat_983040)
next
  assume le: "GetIndex_position n \<le> 167"
  show "n \<le> kMaxBucketed"
  proof (rule ccontr)
    assume "\<not> n \<le> kMaxBucketed"
    then have "983041 \<le> unat n" by (simp add: kMaxBucketed_eq word_le_nat_alt)
    from position_nat_mono [OF this] le show False
      by (simp add: GetIndex_position_nat position_nat_983040)
  qed
qed

subsection \<open>Orders and logarithms\<close>

lemma order_ceillog2:
  assumes "0 < m"
  shows "floorlog 2 m = ceillog2 m + (if \<exists>k. m = 2 ^ k then 1 else 0)"
proof (cases "\<exists>k. m = 2 ^ k")
  case True
  then obtain k where m: "m = 2 ^ k" by blast
  have "floorlog 2 m = Suc k" unfolding m by (rule floorlog2_eqI) simp_all
  moreover have "ceillog2 m = k" unfolding m by (rule ceillog2_eqI) simp_all
  ultimately show ?thesis using True by simp
next
  case False
  define w where "w = floorlog 2 m"
  have lo: "2 ^ (w - 1) \<le> m" and hi: "m < 2 ^ w"
    using floorlog2_pos_bounds [OF assms] by (simp_all add: w_def)
  have w: "0 < w" using assms by (simp add: w_def floorlog_def)
  from False have "m \<noteq> 2 ^ (w - 1)" by blast
  with lo have "2 ^ (w - 1) < m" by simp
  then have "2 * 2 ^ (w - 1) < 2 * m" by simp
  moreover have "2 * 2 ^ (w - 1) = (2::nat) ^ w" using w by (cases w) simp_all
  ultimately have "2 ^ w < 2 * m" by simp
  with hi have "ceillog2 m = w" by (intro ceillog2_eqI) simp_all
  with False show ?thesis by (simp add: w_def)
qed

lemma unat_pos: "n \<noteq> 0 \<Longrightarrow> 0 < unat n" for n :: size_t
  by (simp add: unat_gt_0)

lemma ceillog2_32: "ceillog2 32 = 5"
  by (rule ceillog2_eqI) simp_all

lemma GetIndex_order_32: "GetIndex_order 32 = 6"
proof -
  have "floorlog 2 32 = Suc 5" by (rule floorlog2_eqI) simp_all
  then show ?thesis by (simp add: GetIndex_order_floorlog)
qed

subsection \<open>A bucketed size fits the slots of its bucket\<close>

lemma size_nat_mono:
  assumes "b \<le> i"
  shows "size_nat al b \<le> size_nat al i"
proof (cases "b div 8 = i div 8")
  case True
  have "b mod 8 \<le> i mod 8"
  proof -
    have "b = 8 * (b div 8) + b mod 8" "i = 8 * (i div 8) + i mod 8" by simp_all
    with True assms show ?thesis by linarith
  qed
  then show ?thesis by (simp add: size_nat_def True)
next
  case False
  then have lt: "b div 8 < i div 8" using div_le_mono [OF assms, of 8] by simp
  define eb where "eb = b div 8 + kMinBucketedOrder al - 4"
  define ei where "ei = i div 8 + kMinBucketedOrder al - 4"
  have k4: "4 \<le> kMinBucketedOrder al" by (simp add: kMinBucketedOrder_def)
  have "Suc eb \<le> ei" using lt k4 by (simp add: eb_def ei_def)
  then have p: "(2::nat) ^ Suc eb \<le> 2 ^ ei" by (intro power_increasing) simp_all
  have "b mod 8 < 8" by simp
  then have "8 + b mod 8 \<le> 16" by linarith
  then have "size_nat al b \<le> 16 * 2 ^ eb" by (simp add: size_nat_def eb_def)
  also have "\<dots> = 8 * 2 ^ Suc eb" by simp
  also have "\<dots> \<le> 8 * 2 ^ ei" using p by simp
  also have "\<dots> \<le> size_nat al i" by (simp add: size_nat_def ei_def)
  finally show ?thesis .
qed

lemma ceil_div_ge:
  fixes m k :: nat
  assumes "0 < k"
  shows "m \<le> ((m + k - 1) div k) * k"
proof -
  have e: "m div k * k + m mod k = m" by simp
  have r: "m mod k < k" using assms by simp
  have c: "(m + k - 1) div k = m div k + (if m mod k \<noteq> 0 then 1 else 0)"
    by (rule ceil_div_eq [OF assms, symmetric])
  show ?thesis
  proof (cases "m mod k = 0")
    case True
    then have "(m div k + (if m mod k \<noteq> 0 then 1 else 0)) * k = m div k * k" by simp
    then have "(m + k - 1) div k * k = m div k * k" by (simp only: c)
    with e True show ?thesis by linarith
  next
    case False
    then have "(m div k + (if m mod k \<noteq> 0 then 1 else 0)) * k = m div k * k + k" by simp
    then have "(m + k - 1) div k * k = m div k * k + k" by (simp only: c)
    with e r show ?thesis by linarith
  qed
qed

lemma position_nat_size:
  assumes m: "8 \<le> m"
  shows "m \<le> (8 + position_nat m mod 8) * 2 ^ (position_nat m div 8 - 4)"
proof -
  define o' where "o' = floorlog 2 m"
  define s where "s = o' - 4"
  define c where "c = (m + 2 ^ s - 1) div 2 ^ s"
  have o4: "4 \<le> o'" using floorlog2_ge4 [OF m] by (simp add: o'_def)
  have p: "position_nat m = 8 * (o' - 1) + c"
    using position_nat_large [OF m] by (simp add: o'_def s_def c_def)
  have c_eq: "c = m div 2 ^ s + (if m mod 2 ^ s \<noteq> 0 then 1 else 0)"
    unfolding c_def by (rule ceil_div_eq [symmetric]) simp
  have d: "8 \<le> m div 2 ^ s" "m div 2 ^ s < 16"
    using div_order_bounds [OF m] by (simp_all add: o'_def s_def)
  have c8: "8 \<le> c" and c16: "c \<le> 16" using d by (simp_all add: c_eq)
  have mc: "m \<le> c * 2 ^ s" unfolding c_def by (rule ceil_div_ge) simp
  show ?thesis
  proof (cases "c = 16")
    case True
    have "position_nat m = 8 * (o' + 1)" using p True o4 by simp
    then have "position_nat m div 8 = o' + 1" "position_nat m mod 8 = 0" by simp_all
    moreover have "o' + 1 - 4 = Suc s" using o4 by (simp add: s_def)
    ultimately show ?thesis using mc True by simp
  next
    case False
    with c16 have c15: "c < 16" by simp
    have "position_nat m = 8 * o' + (c - 8)" using p c8 o4 by simp
    moreover have "c - 8 < 8" using c15 by simp
    ultimately have "position_nat m div 8 = o'" "position_nat m mod 8 = c - 8" by simp_all
    then show ?thesis using mc c8 by (simp add: s_def)
  qed
qed

lemma position_nat_lt32: "m < 8 \<Longrightarrow> position_nat m < 32"
  using floorlog2_lt4 [of m] by (simp add: position_nat_small)

lemma position_nat_order: "floorlog 2 m \<le> position_nat m div 8"
  using position_nat_bounds(1) [of m] by simp

lemma bucket_size_ge:
  assumes raw: "raw \<le> kMaxBucketed" and idx: "SizeToBucketIndex al raw = Some i"
  shows "i < kNumBuckets al \<and> raw \<le> InitBucketSizes al ! i"
proof -
  define p where "p = GetIndex_position raw"
  define m where "m = unat raw"
  have i: "i = table_entry al p" using idx by (simp add: SizeToBucketIndex_def GetIndex_eq p_def)
  have pm: "p = position_nat m" by (simp add: p_def m_def GetIndex_position_nat)
  have p167: "p \<le> 167" using raw by (simp add: p_def GetIndex_position_bucketed)
  then have hi: "p div 8 \<le> kMaxBucketedOrder" by (simp add: kMaxBucketedOrder_def)
  show ?thesis
  proof (cases "p div 8 < kMinBucketedOrder al")
    case True
    then have i0: "i = 0" by (simp add: i table_entry_def)
    have "floorlog 2 m < kMinBucketedOrder al"
      using position_nat_order [of m] True by (simp add: pm)
    then have "floorlog 2 m \<le> kMinBucketedOrder al - 1" by simp
    then have "m < 2 ^ (kMinBucketedOrder al - 1)" by (rule floorlog_leD) simp
    moreover have "size_nat al 0 = 2 ^ (kMinBucketedOrder al - 1)"
      by (simp add: size_nat_def kMinBucketedOrder_def)
    ultimately have "m \<le> unat (InitBucketSizes al ! 0)"
      by (simp add: unat_InitBucketSizes_nth kNumBuckets_pos)
    then show ?thesis by (simp add: i0 kNumBuckets_pos word_le_nat_alt m_def)
  next
    case False
    then have lo: "kMinBucketedOrder al \<le> p div 8" by simp
    define b where "b = p - 8 * kMinBucketedOrder al"
    have bi: "b \<le> i" and iN: "i < kNumBuckets al"
      using table_entry_mid(2,3) [OF lo hi] by (simp_all add: i b_def)
    have k4: "4 \<le> kMinBucketedOrder al" by (simp add: kMinBucketedOrder_def)
    have "32 \<le> p" using lo k4 by simp
    then have m8: "8 \<le> m" using position_nat_lt32 [of m] by (cases "m < 8") (simp_all add: pm)
    have p_eq: "p = b + 8 * kMinBucketedOrder al" using lo by (simp add: b_def)
    have "b div 8 + kMinBucketedOrder al = p div 8" "b mod 8 = p mod 8"
      by (simp_all add: p_eq)
    then have "size_nat al b = (8 + p mod 8) * 2 ^ (p div 8 - 4)"
      by (simp add: size_nat_def)
    then have "m \<le> size_nat al b" using position_nat_size [OF m8] by (simp add: pm)
    also have "\<dots> \<le> size_nat al i" using bi by (rule size_nat_mono)
    finally have "m \<le> unat (InitBucketSizes al ! i)"
      by (simp add: unat_InitBucketSizes_nth [OF iN])
    then show ?thesis using iN by (simp add: word_le_nat_alt m_def)
  qed
qed

section \<open>The size-to-bucket mapping: claims C1 to C3\<close>

text \<open>
  Claim C1. \<open>SizeToBucketIndex\<close> is monotone: for all sizes \<open>n1 \<le> n2\<close>, the lookup of
  \<open>BucketIndexLookup::GetIndex\<close> in the table built by the constructor (which steps over
  the bucket sizes that are not multiples of \<open>kSmallestBucket\<close>) returns for \<open>n1\<close> a
  bucket index that is at most the one it returns for \<open>n2\<close>. Both lookups return.
\<close>

theorem SizeToBucketIndex_monotone:
  "n1 \<le> n2 \<Longrightarrow>
     \<exists>i1 i2. SizeToBucketIndex al n1 = Some i1 \<and> SizeToBucketIndex al n2 = Some i2 \<and> i1 \<le> i2"
  by (simp add: SizeToBucketIndex_def GetIndex_eq table_entry_mono GetIndex_position_mono)

theorem SizeToBucketIndex_monotone_witness:
  "(100 :: size_t) \<le> 4096 \<and>
   (\<exists>i1 i2. SizeToBucketIndex 16 100 = Some i1 \<and> SizeToBucketIndex 16 4096 = Some i2 \<and> i1 \<le> i2)"
  using SizeToBucketIndex_monotone [of 100 4096 16] by simp

text \<open>
  Claim C2. \<open>kMaxBucketed\<close> is exactly 983040. Every size \<open>n \<le> kMaxBucketed\<close> is
  mapped to a normal bucket, an index strictly below \<open>kNumBuckets\<close>; every size above
  \<open>kMaxBucketed\<close> is mapped to the sentinel bucket, index \<open>kNumBuckets\<close>, which is
  served by the direct map.
\<close>

theorem SizeToBucketIndex_range:
  "kMaxBucketed = 983040 \<and>
   (\<exists>i. SizeToBucketIndex al n = Some i \<and>
        (if n \<le> kMaxBucketed then i < kNumBuckets al else i = kNumBuckets al))"
proof (cases "n \<le> kMaxBucketed")
  case True
  then have le: "GetIndex_position n \<le> 167" by (simp add: GetIndex_position_bucketed)
  then have "GetIndex_position n div 8 \<le> 20" by simp
  then have "table_entry al (GetIndex_position n) < kNumBuckets al"
    using table_entry_mid(3) [of al "GetIndex_position n"] kNumBuckets_pos [of al]
    by (cases "GetIndex_position n div 8 < kMinBucketedOrder al")
      (simp_all add: table_entry_def kMaxBucketedOrder_def)
  with True show ?thesis by (simp add: SizeToBucketIndex_def GetIndex_eq kMaxBucketed_eq)
next
  case False
  then have "\<not> GetIndex_position n \<le> 167" by (simp add: GetIndex_position_bucketed)
  then have "20 < GetIndex_position n div 8" by simp
  then have "table_entry al (GetIndex_position n) = kNumBuckets al"
    by (simp add: table_entry_def kMaxBucketedOrder_def kMinBucketedOrder_def)
  with False show ?thesis by (simp add: SizeToBucketIndex_def GetIndex_eq kMaxBucketed_eq)
qed

text \<open>
  Claim C3, as the specification states it: the order of a nonzero size \<open>n\<close> is
  \<open>\<lceil>log2 n\<rceil>\<close>. It is not: the order is the number of significant bits of \<open>n\<close>
  (``Order is 6, (1 << 6-1) == 32 is highest bit set''), one more than \<open>\<lceil>log2 n\<rceil>\<close>
  when \<open>n\<close> is a power of two. The size 32 has order 6, and \<open>\<lceil>log2 32\<rceil> = 5\<close>.
\<close>

theorem GetIndex_order_not_ceil_log2:
  "(32 :: size_t) \<noteq> 0 \<and> GetIndex_order 32 \<noteq> ceillog2 (unat (32 :: size_t))"
  by (simp add: GetIndex_order_32 ceillog2_32)

text \<open>
  Claim C3, amended. For every nonzero size \<open>n\<close> the order is the width of \<open>size_t\<close>
  minus the number of leading zero bits of \<open>n\<close>, that is \<open>\<lfloor>log2 n\<rfloor> + 1\<close>; it equals
  \<open>\<lceil>log2 n\<rceil>\<close> unless \<open>n\<close> is a power of two, where it is \<open>\<lceil>log2 n\<rceil> + 1\<close>. The
  bucket index is the cell of the lookup table at position
  \<open>(order << kNumBucketsPerOrderBits) + order_index\<close>, plus one when the bits of \<open>n\<close>
  under \<open>OrderSubIndexMask order\<close> are not all zero, where
  \<open>order_index = (n >> OrderIndexShift order) & (kNumBucketsPerOrder - 1)\<close>.
\<close>

theorem GetIndex_order_and_position:
  "n \<noteq> 0 \<Longrightarrow>
     GetIndex_order n = kBitsPerSizeT - CountLeadingZeroBitsSizeT n \<and>
     GetIndex_order n = nat \<lfloor>log 2 (real (unat n))\<rfloor> + 1 \<and>
     GetIndex_order n = ceillog2 (unat n) + (if \<exists>k. unat n = 2 ^ k then 1 else 0) \<and>
     (\<exists>lookup. BucketIndexLookup al = Some lookup \<and>
        SizeToBucketIndex al n =
          Some (bucket_index_lookup lookup !
                 (push_bit kNumBucketsPerOrderBits (GetIndex_order n)
                  + unat (drop_bit (OrderIndexShift (GetIndex_order n)) n
                            AND (of_nat kNumBucketsPerOrder - 1))
                  + (if n AND OrderSubIndexMask (GetIndex_order n) \<noteq> 0 then 1 else 0))))"
proof -
  assume n: "n \<noteq> 0"
  define lookup where "lookup = \<lparr> bucket_sizes_tbl = InitBucketSizes al,
            bucket_index_lookup = map (table_entry al) [0..<521] \<rparr>"
  have le: "GetIndex_order n \<le> 64" by (rule GetIndex_order_le)
  then have shift: "kOrderIndexShift ! GetIndex_order n = OrderIndexShift (GetIndex_order n)"
    and msk: "kOrderSubIndexMask ! GetIndex_order n = OrderSubIndexMask (GetIndex_order n)"
    by (simp_all add: kOrderIndexShift_def kOrderSubIndexMask_def kBitsPerSizeT_def del: upt_Suc)
  have pos: "push_bit kNumBucketsPerOrderBits (GetIndex_order n)
                  + unat (drop_bit (OrderIndexShift (GetIndex_order n)) n
                            AND (of_nat kNumBucketsPerOrder - 1))
                  + (if n AND OrderSubIndexMask (GetIndex_order n) \<noteq> 0 then 1 else 0)
      = GetIndex_position n"
    by (simp only: GetIndex_position_def GetIndex_order_index_def GetIndex_sub_order_index_def
        shift msk)
  have 1: "GetIndex_order n = kBitsPerSizeT - CountLeadingZeroBitsSizeT n"
    by (simp only: GetIndex_order_def)
  have 2: "GetIndex_order n = nat \<lfloor>log 2 (real (unat n))\<rfloor> + 1"
    using unat_pos [OF n] by (simp add: GetIndex_order_floorlog floorlog_def)
  have 3: "GetIndex_order n = ceillog2 (unat n) + (if \<exists>k. unat n = 2 ^ k then 1 else 0)"
    using order_ceillog2 [OF unat_pos [OF n]] by (simp only: GetIndex_order_floorlog)
  have l: "BucketIndexLookup al = Some lookup"
    by (simp only: BucketIndexLookup_eq lookup_def)
  have "GetIndex_position n < length (bucket_index_lookup lookup)"
    using GetIndex_position_le [of n] by (simp add: lookup_def del: upt_Suc)
  then have "SizeToBucketIndex al n = Some (bucket_index_lookup lookup ! GetIndex_position n)"
    by (simp add: SizeToBucketIndex_def GetIndex_def l)
  then have 4: "\<exists>lookup. BucketIndexLookup al = Some lookup \<and>
        SizeToBucketIndex al n =
          Some (bucket_index_lookup lookup !
                 (push_bit kNumBucketsPerOrderBits (GetIndex_order n)
                  + unat (drop_bit (OrderIndexShift (GetIndex_order n)) n
                            AND (of_nat kNumBucketsPerOrder - 1))
                  + (if n AND OrderSubIndexMask (GetIndex_order n) \<noteq> 0 then 1 else 0)))"
    using l by (simp only: pos) blast
  from 1 2 3 4 show ?thesis by (intro conjI)
qed

theorem GetIndex_order_and_position_witness:
  "(41 :: size_t) \<noteq> 0 \<and> GetIndex_order 41 = ceillog2 (unat (41 :: size_t)) + (if \<exists>k. unat (41 :: size_t) = 2 ^ k then 1 else 0)"
  using GetIndex_order_and_position [of 41 8] by simp

section \<open>Lemmas on allocation\<close>

subsection \<open>The slot is at least as large as the raw size\<close>

lemma SizeToBucketIndex_cases:
  assumes "SizeToBucketIndex al n = Some i"
  shows "(n \<le> kMaxBucketed \<and> i < kNumBuckets al) \<or> (\<not> n \<le> kMaxBucketed \<and> i = kNumBuckets al)"
proof (cases "n \<le> kMaxBucketed")
  case True
  then have le: "GetIndex_position n \<le> 167" by (simp add: GetIndex_position_bucketed)
  then have "GetIndex_position n div 8 \<le> 20" by simp
  then have "table_entry al (GetIndex_position n) < kNumBuckets al"
    using table_entry_mid(3) [of al "GetIndex_position n"] kNumBuckets_pos [of al]
    by (cases "GetIndex_position n div 8 < kMinBucketedOrder al")
      (simp_all add: table_entry_def kMaxBucketedOrder_def)
  with True assms show ?thesis by (simp add: SizeToBucketIndex_def GetIndex_eq)
next
  case False
  then have "\<not> GetIndex_position n \<le> 167" by (simp add: GetIndex_position_bucketed)
  then have "20 < GetIndex_position n div 8" by simp
  then have "table_entry al (GetIndex_position n) = kNumBuckets al"
    by (simp add: table_entry_def kMaxBucketedOrder_def kMinBucketedOrder_def)
  with False assms show ?thesis by (simp add: SizeToBucketIndex_def GetIndex_eq)
qed

lemma set_with_thread_cache_root_ok:
  "root_ok cfg w this \<Longrightarrow> root_ok cfg (set_with_thread_cache w this' b) this"
  by (auto simp: root_ok_def set_with_thread_cache_def split: option.splits)

lemma unat_extras_lt: "unat (e :: 32 word) < 2 ^ 32"
  using unsigned_less [of e] by simp

lemma unat_ucast_extras: "unat (ucast (e :: 32 word) :: size_t) = unat e"
proof -
  have "unat e < 2 ^ 64" using unat_extras_lt [of e] by simp
  then show ?thesis by (simp add: unsigned_ucast_eq take_bit_nat_eq_self_iff)
qed

lemma raw_size_no_wrap:
  assumes "AllocFlagsNoHooks_raw_size cfg r n = Inr raw"
  shows "unat raw =
           unat (if ENABLE_REF_COUNT_FOR_BACKUP_REF_PTR cfg \<and> n = 0 then 1 else n)
             + unat (extras_size r)"
proof -
  define n' :: size_t where "n' = (if ENABLE_REF_COUNT_FOR_BACKUP_REF_PTR cfg \<and> n = 0 then 1 else n)"
  define e :: size_t where "e = ucast (extras_size r)"
  have e: "unat e = unat (extras_size r)" "unat e < 2 ^ 32"
    using unat_extras_lt [of "extras_size r"] by (simp_all add: e_def unat_ucast_extras)
  from assms have raw: "raw = n' + e" and ge: "n \<le> n' + e"
    by (auto simp: AllocFlagsNoHooks_raw_size_def AdjustSizeForExtrasAdd_def n'_def e_def Let_def
        split: if_splits)
  have "unat n' + unat e < 2 ^ 64"
  proof (cases "n' = n")
    case True
    with ge show ?thesis by (simp add: no_plus_overflow_unat_size word_size)
  next
    case False
    then have "n' = 1" by (simp add: n'_def split: if_splits)
    with e show ?thesis by simp
  qed
  then have "unat n' + unat e < 2 ^ LENGTH(64)" by simp
  then have "unat (n' + e) = unat n' + unat e" by (rule unat_add_lem [THEN iffD1])
  then show ?thesis by (simp add: raw e n'_def)
qed

lemma raw_size_ge:
  assumes "AllocFlagsNoHooks_raw_size cfg r n = Inr raw"
  shows "unat n + unat (extras_size r) \<le> unat raw"
  using raw_size_no_wrap [OF assms] by (auto split: if_splits)

lemma usable_size_ge:
  assumes raw: "AllocFlagsNoHooks_raw_size cfg r n = Inr raw" and u: "raw \<le> utilized"
  shows "n \<le> AdjustSizeForExtrasSubtract r utilized"
    and "unat (AdjustSizeForExtrasSubtract r utilized) = unat utilized - unat (extras_size r)"
proof -
  define e :: size_t where "e = ucast (extras_size r)"
  have e: "unat e = unat (extras_size r)" by (simp add: e_def unat_ucast_extras)
  have ru: "unat raw \<le> unat utilized" using u by (simp add: word_le_nat_alt)
  with raw_size_ge [OF raw] have "unat e \<le> unat utilized" by (simp add: e)
  then have "e \<le> utilized" by (simp add: word_le_nat_alt)
  then have sub: "unat (utilized - e) = unat utilized - unat e" by (simp add: unat_sub)
  then show "unat (AdjustSizeForExtrasSubtract r utilized) = unat utilized - unat (extras_size r)"
    by (simp add: AdjustSizeForExtrasSubtract_def e_def [symmetric] e)
  from sub raw_size_ge [OF raw] ru show "n \<le> AdjustSizeForExtrasSubtract r utilized"
    by (simp add: AdjustSizeForExtrasSubtract_def e_def [symmetric] e word_le_nat_alt)
qed

lemma root_ok_bucket_size:
  assumes ok: "root_ok cfg w this" and r: "roots w this = Some r"
    and i: "i < kNumBuckets (kAlignment cfg)"
  shows "slot_size (bucket_at r i) = InitBucketSizes (kAlignment cfg) ! i"
proof -
  from ok r have m: "map slot_size (buckets r) = InitBucketSizes (kAlignment cfg)"
    by (simp add: root_ok_def)
  then have "length (buckets r) = kNumBuckets (kAlignment cfg)"
    by (metis length_map length_InitBucketSizes)
  with i have "i < length (buckets r)" by simp
  then have "slot_size (bucket_at r i) = map slot_size (buckets r) ! i"
    by (simp add: bucket_at_def)
  with m show ?thesis by simp
qed

lemma root_ok_sentinel:
  assumes ok: "root_ok cfg w this" and r: "roots w this = Some r"
    and sp: "slot_spans w (active_slot_spans_head (bucket_at r (kNumBuckets (kAlignment cfg)))) = Some sp"
  shows "freelist_head sp = 0"
proof -
  from ok r have m: "map slot_size (buckets r) = InitBucketSizes (kAlignment cfg)"
    by (simp add: root_ok_def)
  then have "length (buckets r) = kNumBuckets (kAlignment cfg)"
    by (metis length_map length_InitBucketSizes)
  then have "bucket_at r (kNumBuckets (kAlignment cfg)) = sentinel_bucket r"
    by (simp add: bucket_at_def)
  with ok r sp show ?thesis by (simp add: root_ok_def)
qed

lemma normal_bucket_fits:
  assumes idx: "SizeToBucketIndex al raw = Some i" and i: "i < kNumBuckets al"
  shows "raw \<le> InitBucketSizes al ! i"
proof -
  from SizeToBucketIndex_cases [OF idx] i have "raw \<le> kMaxBucketed" by auto
  from bucket_size_ge [OF this idx] show ?thesis by simp
qed

lemma AllocFromBucket_utilized:
  assumes ok: "root_ok cfg w this" and slow: "slow_path_ok env this"
    and idx: "SizeToBucketIndex (kAlignment cfg) raw = Some i"
    and alloc: "AllocFromBucket env cfg w this i flags raw = Inr (Some (slot, utilized, zeroed), w')"
  shows "raw \<le> utilized"
proof -
  from alloc obtain r where r: "roots w this = Some r"
    by (auto simp: AllocFromBucket_def split: option.splits)
  define head where "head = active_slot_spans_head (bucket_at r i)"
  from alloc r obtain sp where sp: "slot_spans w head = Some sp"
    by (auto simp: AllocFromBucket_def head_def Let_def split: option.splits if_splits)
  show ?thesis
  proof (cases "freelist_head sp = 0")
    case True
    with alloc r sp obtain p z where
      "SlowPathAlloc env w this i flags raw = Inr (p, z, w')" "p \<noteq> 0"
      "utilized = GetUtilizedSlotSize env w' (FromPointer env w' p)"
      by (auto simp: AllocFromBucket_def head_def [symmetric] Let_def
          split: option.splits if_splits sum.splits prod.splits)
    with slow show ?thesis unfolding slow_path_ok_def by blast
  next
    case False
    with alloc r sp have u: "utilized = slot_size (bucket_at r i)"
      by (auto simp: AllocFromBucket_def head_def [symmetric] Let_def
          split: option.splits if_splits sum.splits prod.splits)
    have "i \<noteq> kNumBuckets (kAlignment cfg)"
      using root_ok_sentinel [OF ok r] sp False by (auto simp: head_def)
    with SizeToBucketIndex_cases [OF idx] have i: "i < kNumBuckets (kAlignment cfg)" by auto
    from normal_bucket_fits [OF idx i] root_ok_bucket_size [OF ok r i] u show ?thesis by simp
  qed
qed

lemma AllocFromBucket_zeroed:
  assumes alloc: "AllocFromBucket env cfg w this i flags raw = Inr (Some (slot, utilized, True), w')"
  shows "SlowPathAlloc env w this i flags raw = Inr (slot, True, w') \<and> slot \<noteq> 0 \<and>
         utilized = GetUtilizedSlotSize env w' (FromPointer env w' slot)"
  using alloc
  by (auto simp: AllocFromBucket_def Let_def
      split: option.splits if_splits sum.splits prod.splits)

lemma allocate_cases:
  assumes alloc: "AllocFlagsNoHooks_allocate env cfg w this r i flags raw = Inr (Some res, w')"
  obtains (direct) "AllocFromBucket env cfg w this i flags raw = Inr (Some res, w')"
  | (cached) tc w1 p u where "res = (p, u, False)" "p \<noteq> 0"
      "GetFromCache env w1 tc i = (p, u, w')"
      "w1 = w \<or> (\<exists>w0. ThreadCache_Create env (set_with_thread_cache w this False) this = Inr (tc, w0)
                     \<and> w1 = set_with_thread_cache w0 this True)"
  | (missed) tc w1 p u w2 where "GetFromCache env w1 tc i = (p, u, w2)"
      "AllocFromBucket env cfg w2 this i flags raw = Inr (Some res, w')"
      "w1 = w \<or> (\<exists>w0. ThreadCache_Create env (set_with_thread_cache w this False) this = Inr (tc, w0)
                     \<and> w1 = set_with_thread_cache w0 this True)"
proof (cases "thread_safe cfg \<and> with_thread_cache r")
  case False
  with alloc have "AllocFromBucket env cfg w this i flags raw = Inr (Some res, w')"
    by (auto simp: AllocFlagsNoHooks_allocate_def RawAlloc_def)
  then show ?thesis by (rule direct)
next
  case True
  define got where "got =
    (if ThreadCache_Get env w = 0 then
       (case ThreadCache_Create env (set_with_thread_cache w this False) this of
          Inl c \<Rightarrow> Inl c
        | Inr (tcache, w') \<Rightarrow> Inr (tcache, set_with_thread_cache w' this True))
     else Inr (ThreadCache_Get env w, w))"
  from alloc True obtain tc w1 where got: "got = Inr (tc, w1)"
    by (auto simp: AllocFlagsNoHooks_allocate_def got_def [symmetric] split: sum.splits)
  then have w1: "w1 = w \<or> (\<exists>w0. ThreadCache_Create env (set_with_thread_cache w this False) this = Inr (tc, w0)
                     \<and> w1 = set_with_thread_cache w0 this True)"
    by (auto simp: got_def split: if_splits sum.splits)
  obtain p u w2 where g: "GetFromCache env w1 tc i = (p, u, w2)" by (cases "GetFromCache env w1 tc i")
  show ?thesis
  proof (cases "p = 0")
    case True
    with alloc \<open>thread_safe cfg \<and> with_thread_cache r\<close> got g
    have a: "AllocFromBucket env cfg w2 this i flags raw = Inr (Some res, w')"
      by (simp add: AllocFlagsNoHooks_allocate_def got_def [symmetric] RawAlloc_def)
    from g a w1 show ?thesis by (rule missed)
  next
    case False
    with alloc \<open>thread_safe cfg \<and> with_thread_cache r\<close> got g
    have "res = (p, u, False)" "w' = w2"
      by (auto simp: AllocFlagsNoHooks_allocate_def got_def [symmetric] split: if_splits)
    with False g w1 show ?thesis by (intro cached) simp_all
  qed
qed

lemma thread_cache_world_ok:
  assumes ok: "root_ok cfg w this" and tc: "thread_cache_ok env cfg this"
    and w1: "w1 = w \<or> (\<exists>w0. ThreadCache_Create env (set_with_thread_cache w this False) this = Inr (tc', w0)
                     \<and> w1 = set_with_thread_cache w0 this True)"
  shows "root_ok cfg w1 this"
proof -
  from w1 show ?thesis
  proof
    assume "w1 = w" with ok show ?thesis by simp
  next
    assume "\<exists>w0. ThreadCache_Create env (set_with_thread_cache w this False) this = Inr (tc', w0)
                     \<and> w1 = set_with_thread_cache w0 this True"
    then obtain w0 where c: "ThreadCache_Create env (set_with_thread_cache w this False) this = Inr (tc', w0)"
      and e: "w1 = set_with_thread_cache w0 this True" by blast
    have "root_ok cfg (set_with_thread_cache w this False) this"
      using ok by (rule set_with_thread_cache_root_ok)
    with tc c have "root_ok cfg w0 this" unfolding thread_cache_ok_def by blast
    then show ?thesis unfolding e by (rule set_with_thread_cache_root_ok)
  qed
qed

lemma allocate_utilized:
  assumes ok: "root_ok cfg w this" and slow: "slow_path_ok env this"
    and tc: "thread_cache_ok env cfg this"
    and idx: "SizeToBucketIndex (kAlignment cfg) raw = Some i"
    and alloc: "AllocFlagsNoHooks_allocate env cfg w this r i flags raw
                  = Inr (Some (slot, utilized, zeroed), w')"
  shows "raw \<le> utilized"
  using alloc
proof (cases rule: allocate_cases)
  case direct
  from AllocFromBucket_utilized [OF ok slow idx this] show ?thesis .
next
  case (cached tc' w1 p u)
  have "root_ok cfg w1 this" using ok tc cached(4) by (rule thread_cache_world_ok)
  with tc cached(2,3) have "i < kNumBuckets (kAlignment cfg)"
    "u = InitBucketSizes (kAlignment cfg) ! i"
    unfolding thread_cache_ok_def by blast+
  with normal_bucket_fits [OF idx] cached(1) show ?thesis by simp
next
  case (missed tc' w1 p u w2)
  have "root_ok cfg w1 this" using ok tc missed(3) by (rule thread_cache_world_ok)
  with tc missed(1) have "root_ok cfg w2 this" unfolding thread_cache_ok_def by blast
  from AllocFromBucket_utilized [OF this slow idx missed(2)] show ?thesis .
qed

lemma allocate_zeroed:
  assumes alloc: "AllocFlagsNoHooks_allocate env cfg w this r i flags raw
                  = Inr (Some (slot, utilized, True), w')"
  shows "\<exists>w0. SlowPathAlloc env w0 this i flags raw = Inr (slot, True, w') \<and> slot \<noteq> 0 \<and>
         utilized = GetUtilizedSlotSize env w' (FromPointer env w' slot)"
  using alloc
proof (cases rule: allocate_cases)
  case direct
  from AllocFromBucket_zeroed [OF this] show ?thesis by blast
next
  case (cached tc' w1 p u)
  then show ?thesis by simp
next
  case (missed tc' w1 p u w2)
  from AllocFromBucket_zeroed [OF missed(2)] show ?thesis by blast
qed

subsection \<open>The parts of an allocation\<close>

lemma AllocFlagsNoHooks_info_cases:
  assumes "AllocFlagsNoHooks_info env cfg w this flags n = Inr (Some info, w')"
  obtains r raw i slot utilized zeroed w1 where
    "roots w this = Some r"
    "AllocFlagsNoHooks_raw_size cfg r n = Inr raw"
    "SizeToBucketIndex (kAlignment cfg) raw = Some i"
    "AllocFlagsNoHooks_allocate env cfg w this r i flags raw = Inr (Some (slot, utilized, zeroed), w1)"
    "AllocFlagsNoHooks_finish env cfg w1 r flags raw (slot, utilized, zeroed) = (info, w')"
  using assms
  by (auto simp: AllocFlagsNoHooks_info_def split: option.splits sum.splits prod.splits)

lemma finish_info:
  assumes "AllocFlagsNoHooks_finish env cfg w1 r flags raw (slot, utilized, zeroed) = (info, w')"
  shows "ret info = slot + ucast (extras_offset r)" "slot_start info = slot"
    "raw_size info = raw" "utilized_slot_size info = utilized"
    "usable_size info = AdjustSizeForExtrasSubtract r utilized" "is_already_zeroed info = zeroed"
  using assms
  by (auto simp: AllocFlagsNoHooks_finish_def Let_def AdjustPointerForExtrasAdd_def)

subsection \<open>Writes that leave a byte alone\<close>

lemma write_bytes_other:
  "(\<And>j. j < length bs \<Longrightarrow> a \<noteq> p + of_nat j) \<Longrightarrow> write_bytes m p bs a = m a"
proof (induction bs arbitrary: m p)
  case Nil
  show ?case by simp
next
  case (Cons b bs)
  have "a \<noteq> p" using Cons.prems [of 0] by simp
  moreover have "write_bytes (m(p := b)) (p + 1) bs a = (m(p := b)) a"
  proof (rule Cons.IH)
    fix j assume "j < length bs"
    then have "a \<noteq> p + of_nat (Suc j)" using Cons.prems [of "Suc j"] by simp
    then show "a \<noteq> p + 1 + of_nat j" by (simp add: add.assoc)
  qed
  ultimately show ?case by simp
qed

lemma write_bytes_far:
  fixes a p :: uintptr_t
  assumes "length bs \<le> unat (a - p)"
  shows "write_bytes m p bs a = m a"
proof (rule write_bytes_other)
  fix j assume j: "j < length bs"
  show "a \<noteq> p + of_nat j"
  proof
    assume "a = p + of_nat j"
    then have "a - p = of_nat j" by simp
    then have "unat (a - p) = j mod 2 ^ 64" by (simp add: unat_of_nat)
    also have "\<dots> \<le> j" by simp
    finally show False using j assms by simp
  qed
qed

lemma unat_plus_no_wrap:
  fixes x y :: size_t
  assumes "unat x + unat y < 2 ^ 64"
  shows "unat (x + y) = unat x + unat y"
proof -
  from assms have "unat x + unat y < 2 ^ LENGTH(64)" by simp
  then show ?thesis by (rule unat_add_lem [THEN iffD1])
qed

lemma unat_lt_2p64: "unat (x :: size_t) < 2 ^ 64"
  using unsigned_less [of x] by simp

lemma unat_minus_wrap:
  fixes x y :: size_t
  assumes "x < y"
  shows "unat (x - y) = 2 ^ 64 + unat x - unat y"
proof -
  have xy: "unat x < unat y" using assms by (simp add: word_less_nat_alt)
  have "unat (x - y) = (2 ^ 64 + unat x - unat y) mod 2 ^ 64"
    using unat_sub_if_size [of x y] xy by (simp add: word_size)
  moreover have "2 ^ 64 + unat x - unat y < (2::nat) ^ 64" using xy unat_lt_2p64 [of y] by simp
  ultimately show ?thesis by simp
qed

lemma finish_zero_fill:
  assumes fin: "AllocFlagsNoHooks_finish env cfg w1 r flags raw (slot, utilized, zeroed) = (info, w')"
    and zf: "PartitionAllocZeroFill \<in> flags"
    and ex: "extras_ok env cfg r"
    and e_le: "unat (extras_size r) \<le> unat utilized"
    and pre: "zeroed \<Longrightarrow> \<forall>a. a - slot < utilized \<longrightarrow> mem w1 a = 0"
    and a: "a - ret info < usable_size info"
  shows "mem w' a = 0"
proof -
  define off :: size_t where "off = ucast (extras_offset r)"
  define e :: size_t where "e = ucast (extras_size r)"
  define p where "p = slot + off"
  define usable where "usable = utilized - e"
  define i where "i = a - p"
  have off: "unat off = unat (extras_offset r)" and e: "unat e = unat (extras_size r)"
    by (simp_all add: off_def e_def unat_ucast_extras)
  have off_e: "unat off \<le> unat e" using ex by (simp add: extras_ok_def off e)
  have "e \<le> utilized" using e_le by (simp add: word_le_nat_alt e)
  then have usable: "unat usable = unat utilized - unat e" by (simp add: usable_def unat_sub)
  note info = finish_info [OF fin]
  have i: "unat i < unat usable"
    using a by (simp add: info i_def p_def off_def usable_def e_def AdjustSizeForExtrasSubtract_def
        word_less_nat_alt)
  have ut: "unat utilized < 2 ^ 64" by (rule unat_lt_2p64)
  have a_slot: "a - slot = i + off" by (simp add: i_def p_def)
  have "unat i + unat off < 2 ^ 64" using i usable off_e e_le e ut by linarith
  then have d_slot: "unat (a - slot) = unat i + unat off"
    by (simp only: a_slot unat_plus_no_wrap)
  define wc where "wc =
     (if DCHECK_IS_ON cfg \<and> allow_cookies r
      then PartitionCookieWriteValue env
             (PartitionCookieWriteValue env w1 (p - kCookieSize cfg)) (p + usable)
      else w1)"
  define wz where "wz = (if \<not> zeroed then wc\<lparr>mem := memset (mem wc) p 0 usable\<rparr> else wc)"
  have w': "w' = (if ENABLE_REF_COUNT_FOR_BACKUP_REF_PTR cfg \<and> allow_ref_count r
                      \<and> \<not> raw > kMaxBucketed
                  then PartitionRefCount_construct env wz slot else wz)"
  proof -
    have "snd (AllocFlagsNoHooks_finish env cfg w1 r flags raw (slot, utilized, zeroed))
        = (if ENABLE_REF_COUNT_FOR_BACKUP_REF_PTR cfg \<and> allow_ref_count r
                      \<and> \<not> raw > kMaxBucketed
                  then PartitionRefCount_construct env wz slot else wz)"
      using zf
      by (simp add: AllocFlagsNoHooks_finish_def Let_def wz_def wc_def p_def usable_def off_def
          e_def AdjustPointerForExtrasAdd_def AdjustSizeForExtrasSubtract_def)
    then show ?thesis by (simp add: fin)
  qed
  have rc: "mem w' a = mem wz a"
  proof (cases "ENABLE_REF_COUNT_FOR_BACKUP_REF_PTR cfg \<and> allow_ref_count r \<and> \<not> raw > kMaxBucketed")
    case True
    then have "length (PartitionRefCount_bytes env) \<le> unat off"
      using ex by (simp add: extras_ok_def off)
    then have "length (PartitionRefCount_bytes env) \<le> unat (a - slot)" using d_slot by simp
    then show ?thesis using True
      by (simp add: w' PartitionRefCount_construct_def write_bytes_far)
  next
    case False
    then show ?thesis by (auto simp: w')
  qed
  show ?thesis
  proof (cases zeroed)
    case False
    have "a - p < usable" using i by (simp add: i_def word_less_nat_alt)
    then show ?thesis using False by (simp add: rc wz_def memset_def)
  next
    case True
    have "unat (a - slot) < unat utilized" using d_slot i usable off_e e_le e by linarith
    then have "a - slot < utilized" by (simp add: word_less_nat_alt)
    with pre True have z: "mem w1 a = 0" by blast
    have "mem wc a = mem w1 a"
    proof (cases "DCHECK_IS_ON cfg \<and> allow_cookies r")
      case False
      then show ?thesis by (auto simp: wc_def)
    next
      case cookies: True
      define k where "k = kCookieSize cfg"
      have len: "length (kCookieValue env) = unat k" and k_e: "unat k \<le> unat e"
        using ex cookies by (simp_all add: extras_ok_def k_def e)
      have "unat i + unat k < 2 ^ 64" using i usable k_e ut by linarith
      then have ik: "unat (i + k) = unat i + unat k" by (rule unat_plus_no_wrap)
      have eq1: "a - (p - k) = i + k" by (simp add: i_def)
      have first: "length (kCookieValue env) \<le> unat (a - (p - k))"
        unfolding eq1 by (simp add: len ik)
      have "i < usable" using i by (simp add: word_less_nat_alt)
      then have iu: "unat (i - usable) = 2 ^ 64 + unat i - unat usable" by (rule unat_minus_wrap)
      have eq2: "a - (p + usable) = i - usable" by (simp add: i_def)
      have second: "length (kCookieValue env) \<le> unat (a - (p + usable))"
        unfolding eq2 using usable k_e ut i by (simp add: len iu)
      show ?thesis using cookies first second
        by (simp add: wc_def PartitionCookieWriteValue_def k_def [symmetric] write_bytes_far)
    qed
    then show ?thesis using True z by (simp add: rc wz_def)
  qed
qed

subsection \<open>Powers of two and alignment\<close>

lemma unat_push_bit_1:
  assumes "k < 64"
  shows "unat (push_bit k 1 :: size_t) = 2 ^ k"
proof -
  have lt: "(2::nat) ^ k < 2 ^ 64" using assms by (intro power_strict_increasing) simp_all
  have "(push_bit k 1 :: size_t) = of_nat (2 ^ k)" by (simp add: push_bit_eq_mult)
  then have "unat (push_bit k 1 :: size_t) = 2 ^ k mod 2 ^ 64"
    by (simp only: unat_of_nat) simp
  with lt show ?thesis by simp
qed

lemma IsPowerOfTwo_E:
  assumes "IsPowerOfTwo v"
  obtains k where "k < 64" "v = push_bit k 1" "unat v = 2 ^ k"
  using assms unat_push_bit_1 by (auto simp: IsPowerOfTwo_def kBitsPerSizeT_def)

lemma aligned_pointer:
  assumes al: "IsPowerOfTwo alignment" and p: "p AND (alignment - 1) = 0"
  shows "unat p mod unat alignment = 0"
proof -
  from al obtain k where k: "k < 64" "alignment = push_bit k 1" "unat alignment = 2 ^ k"
    by (rule IsPowerOfTwo_E)
  have "alignment - 1 = mask k" by (simp add: k(2) mask_eq_exp_minus_1 push_bit_eq_mult)
  with p have "take_bit k p = 0" by (simp add: take_bit_eq_mask)
  then have "unat (take_bit k p) = 0" by simp
  then have "take_bit k (unat p) = 0" by (simp only: unsigned_take_bit_eq)
  then show ?thesis by (simp add: take_bit_eq_mod k(3))
qed

lemma requested_size_power_of_two:
  assumes le: "alignment \<le> sz" and nz: "sz \<noteq> 0"
    and no: "\<not> AlignedAlloc_requested_size alignment sz < sz"
  shows "\<exists>j<64. unat (AlignedAlloc_requested_size alignment sz) = 2 ^ j \<and> unat sz \<le> 2 ^ j \<and>
               (\<forall>k. unat sz \<le> 2 ^ k \<longrightarrow> j \<le> k)"
proof -
  define j where "j = GetIndex_order (sz - 1)"
  have req: "AlignedAlloc_requested_size alignment sz = push_bit j 1"
    using le by (simp add: AlignedAlloc_requested_size_def j_def GetIndex_order_def not_less [symmetric])
  have j64: "j \<le> 64" unfolding j_def by (rule GetIndex_order_le)
  have "j \<noteq> 64"
  proof
    assume "j = 64"
    then have "AlignedAlloc_requested_size alignment sz = 0" by (simp add: req)
    with no nz show False by (simp add: word_neq_0_conv)
  qed
  with j64 have j: "j < 64" by simp
  have "1 \<le> sz" using nz by (simp add: word_le_nat_alt unat_gt_0 Suc_le_eq)
  then have m: "unat (sz - 1) = unat sz - 1" by (simp add: unat_sub)
  have fl: "j = floorlog 2 (unat sz - 1)" by (simp add: j_def GetIndex_order_floorlog m)
  then have "floorlog 2 (unat sz - 1) \<le> j" by simp
  then have "unat sz - 1 < 2 ^ j" by (rule floorlog_leD) simp
  then have up: "unat sz \<le> 2 ^ j" by simp
  have least: "j \<le> k" if "unat sz \<le> 2 ^ k" for k
  proof -
    have "0 < unat sz" using nz by (simp add: unat_gt_0)
    with that have "unat sz - 1 < 2 ^ k" by simp
    then show ?thesis unfolding fl by (intro floorlog_leI) simp_all
  qed
  have "unat (AlignedAlloc_requested_size alignment sz) = 2 ^ j"
    unfolding req using j by (rule unat_push_bit_1)
  with j up least show ?thesis by blast
qed

subsection \<open>Requests that are too large\<close>








subsection \<open>The integrity token\<close>

lemma Init_inverted_self:
  "Init w this = Inr w' \<Longrightarrow>
     \<exists>r. roots w' this = Some r \<and> initialized r \<and> inverted_self r = NOT this"
  by (auto simp: Init_def split: option.splits)

lemma IsValidSlotSpan_iff:
  "FromSlotSpan cfg w slot_span = Inr root' \<Longrightarrow> roots w root' = Some r \<Longrightarrow>
     IsValidSlotSpan cfg w slot_span = Inr (inverted_self r = NOT root')"
  by (simp add: IsValidSlotSpan_def)

lemma FromSuperPage_checks:
  "extent_entry_root w (PartitionSuperPageToMetadataArea env super_page) = Some root' \<Longrightarrow>
   roots w root' = Some r \<Longrightarrow>
     FromSuperPage env cfg w super_page =
       (if DCHECK_IS_ON cfg \<and> inverted_self r \<noteq> NOT root' then Inl PA_DCHECK_failed else Inr root')"
  by (simp add: FromSuperPage_def)

subsection \<open>Evaluating the small store\<close>

lemma example_head: "active_slot_spans_head (bucket_at example_root i) = 2101280"
  by (simp add: bucket_at_def example_root_def)

lemma example_root_ok: "root_ok example_build example_world 1048576"
  by (simp add: root_ok_def example_world_def example_root_def example_build_def o_def)

lemma example_slow_path_ok: "slow_path_ok example_env 1048576"
  by (auto simp: slow_path_ok_def example_env_def split: if_splits)

lemma example_thread_cache_ok: "thread_cache_ok example_env example_build 1048576"
  by (auto simp: thread_cache_ok_def example_env_def)

lemma example_zeroed_ok: "zeroed_ok example_env 1048576"
  by (auto simp: zeroed_ok_def example_env_def split: if_splits)

lemma example_extras_ok: "extras_ok example_env example_build example_root"
  by (simp add: extras_ok_def example_env_def example_build_def example_root_def)

lemma example_store:
  "roots example_world 1048576 = Some example_root"
  "slot_spans example_world 2101280
     = Some \<lparr> freelist_head = 0, num_allocated_slots = 0, bucket = (1048576, kNumBuckets 8) \<rparr>"
  "slot_spans example_world 2101312
     = Some \<lparr> freelist_head = 0, num_allocated_slots = 1, bucket = (1048576, 0) \<rparr>"
  "extent_entry_root example_world 2101248 = Some 1048576"
  by (simp_all add: example_world_def)

lemma example_flags:
  "\<not> DCHECK_IS_ON example_build" "\<not> thread_safe example_build"
  "\<not> MEMORY_TOOL_REPLACES_ALLOCATOR example_build"
  "ENABLE_REF_COUNT_FOR_BACKUP_REF_PTR example_build" "kAlignment example_build = 8"
  "SystemPageBaseMask example_build = NOT 4095"
  by (simp_all add: example_build_def)

lemma example_calls:
  "SlowPathAlloc example_env w this' b flags raw
     = (if raw \<le> 4096 then Inr (2113536, False, w) else Inr (0, False, w))"
  "FromPointer example_env w p = 2101312"
  "FromPointerNoAlignmentCheck example_env w p = 2101312"
  "GetUtilizedSlotSize example_env w s = 4096"
  "AreHooksEnabled example_env w = False"
  by (simp_all add: example_env_def)

lemma example_AllocFromBucket:
  "raw \<le> 4096 \<Longrightarrow>
   AllocFromBucket example_env example_build example_world 1048576 i flags raw
     = Inr (Some (2113536, 4096, False), example_world)"
  by (simp add: AllocFromBucket_def Let_def example_head example_store example_flags example_calls)

lemma example_allocate:
  "raw \<le> 4096 \<Longrightarrow>
   AllocFlagsNoHooks_allocate example_env example_build example_world 1048576 example_root i flags raw
     = Inr (Some (2113536, 4096, False), example_world)"
  by (simp add: AllocFlagsNoHooks_allocate_def RawAlloc_def example_AllocFromBucket example_flags)

lemma example_info:
  assumes "AllocFlagsNoHooks_raw_size example_build example_root n = Inr raw" "raw \<le> 4096"
  shows "AllocFlagsNoHooks_info example_env example_build example_world 1048576 flags n
     = (case AllocFlagsNoHooks_finish example_env example_build example_world example_root flags raw
               (2113536, 4096, False) of (info, w') \<Rightarrow> Inr (Some info, w'))"
proof -
  obtain i where "SizeToBucketIndex (kAlignment example_build) raw = Some i"
    by (simp add: SizeToBucketIndex_def GetIndex_eq)
  with assms show ?thesis
    by (simp add: AllocFlagsNoHooks_info_def example_allocate example_store)
qed

lemma example_finish:
  assumes "\<not> kMaxBucketed < raw"
  shows "AllocFlagsNoHooks_finish example_env example_build example_world example_root flags raw
      (2113536, 4096, False)
   = (\<lparr> ret = 2113544, slot_start = 2113536, raw_size = raw, utilized_slot_size = 4096,
        usable_size = 4088, is_already_zeroed = False \<rparr>, example_after flags)"
  using assms
  by (simp add: AllocFlagsNoHooks_finish_def Let_def example_after_def
      AdjustSizeForExtrasSubtract_def AdjustPointerForExtrasAdd_def PartitionRefCount_construct_def
      example_build_def example_root_def example_env_def)

lemma example_alloc:
  assumes "AllocFlagsNoHooks_raw_size example_build example_root n = Inr raw" "raw \<le> 4096"
  shows "AllocFlagsNoHooks_info example_env example_build example_world 1048576 flags n
     = Inr (Some \<lparr> ret = 2113544, slot_start = 2113536, raw_size = raw, utilized_slot_size = 4096,
                     usable_size = 4088, is_already_zeroed = False \<rparr>, example_after flags)"
proof -
  have "(4096 :: size_t) \<le> kMaxBucketed" by (simp add: kMaxBucketed_eq)
  with assms(2) have "raw \<le> kMaxBucketed" by (rule order_trans)
  then have "\<not> kMaxBucketed < raw" by simp
  then show ?thesis by (simp add: example_info [OF assms] example_finish)
qed

lemma example_raw_size:
  "AllocFlagsNoHooks_raw_size example_build example_root 100 = Inr 108"
  "AllocFlagsNoHooks_raw_size example_build example_root 0 = Inr 9"
  "AllocFlagsNoHooks_raw_size example_build example_root 128 = Inr 136"
  by (simp_all add: AllocFlagsNoHooks_raw_size_def AdjustSizeForExtrasAdd_def example_build_def
      example_root_def)

lemma example_after_store:
  "roots (example_after flags) = roots example_world"
  "extent_entry_root (example_after flags) = extent_entry_root example_world"
  by (simp_all add: example_after_def)


lemma example_requested_size: "AlignedAlloc_requested_size 8 100 = 128"
proof -
  have "floorlog 2 99 = Suc 6" by (rule floorlog2_eqI) simp_all
  then have "GetIndex_order 99 = 7" by (simp add: GetIndex_order_floorlog)
  then show ?thesis by (simp add: AlignedAlloc_requested_size_def GetIndex_order_def)
qed

lemma example_IsPowerOfTwo: "IsPowerOfTwo 8"
  unfolding IsPowerOfTwo_def kBitsPerSizeT_def by (rule bexI [of _ 3]) simp_all

lemma example_AlignedAllocFlags:
  "AlignedAllocFlags example_env example_build example_world 1048576 {PartitionAllocNoHooks} 8 100
     = Inr (2113544, example_after {})"
  by (simp add: AlignedAllocFlags_def Let_def example_store example_flags example_IsPowerOfTwo
      example_requested_size AllocFlagsNoHooks_def example_alloc [OF example_raw_size(3)])







section \<open>Allocation and deallocation: claims C4 to C10\<close>

text \<open>
  Claim C4. For every request size \<open>n\<close> and every non-null pointer \<open>p\<close> that
  \<open>AllocFlagsNoHooks\<close> (the body of \<open>Alloc\<close> and \<open>AllocFlags\<close>) returns,
  \<open>GetUsableSize p \<ge> n\<close>: the utilized slot size of the allocation is at least the raw
  size, the request plus the extras, and \<open>GetUsableSize\<close> returns the utilized slot size
  minus \<open>extras_size\<close>. The root has the slot sizes of the bucket table, the slow path and
  the thread cache keep their contract, and the metadata lookup finds for \<open>p\<close> the root and
  the utilized slot size of the allocation.
\<close>

theorem GetUsableSize_covers_request:
  assumes ok: "root_ok cfg w this" and slow: "slow_path_ok env this"
    and tc: "thread_cache_ok env cfg this"
    and alloc: "AllocFlagsNoHooks_info env cfg w this flags n = Inr (Some info, w')"
    and span: "FromSlotSpan cfg w' (FromPointerNoAlignmentCheck env w' (ret info)) = Inr this"
    and same: "GetUtilizedSlotSize env w' (FromPointerNoAlignmentCheck env w' (ret info))
                 = utilized_slot_size info"
    and extras: "map_option extras_size (roots w' this) = map_option extras_size (roots w this)"
  shows "AllocFlagsNoHooks env cfg w this flags n = Inr (ret info, w') \<and>
         raw_size info \<le> utilized_slot_size info \<and>
         GetUsableSize env cfg w' (ret info) = Inr (usable_size info) \<and>
         n \<le> usable_size info"
  using alloc
proof (cases rule: AllocFlagsNoHooks_info_cases)
  case (1 r raw i slot utilized zeroed w1)
  note info = finish_info [OF 1(5)]
  have u: "raw \<le> utilized" using ok slow tc 1(3,4) by (rule allocate_utilized)
  from extras 1(1) obtain r' where r': "roots w' this = Some r'" "extras_size r' = extras_size r"
    by (cases "roots w' this") auto
  have "GetUsableSize env cfg w' (ret info) = Inr (usable_size info)"
    using span same r'
    by (simp add: GetUsableSize_def Let_def info AdjustSizeForExtrasSubtract_def)
  moreover have "n \<le> usable_size info"
    using usable_size_ge(1) [OF 1(2) u] by (simp add: info)
  moreover have "AllocFlagsNoHooks env cfg w this flags n = Inr (ret info, w')"
    using alloc by (simp add: AllocFlagsNoHooks_def)
  ultimately show ?thesis using u by (simp add: info)
qed

theorem GetUsableSize_covers_request_witness:
  "root_ok example_build example_world 1048576 \<and> slow_path_ok example_env 1048576 \<and>
   thread_cache_ok example_env example_build 1048576 \<and>
   AllocFlagsNoHooks_info example_env example_build example_world 1048576 {} 100
     = Inr (Some \<lparr> ret = 2113544, slot_start = 2113536, raw_size = 108, utilized_slot_size = 4096,
                     usable_size = 4088, is_already_zeroed = False \<rparr>, example_after {}) \<and>
   FromSlotSpan example_build (example_after {})
     (FromPointerNoAlignmentCheck example_env (example_after {}) 2113544) = Inr 1048576 \<and>
   GetUsableSize example_env example_build (example_after {}) 2113544 = Inr 4088 \<and>
   (100 :: size_t) \<le> 4088"
proof -
  have alloc: "AllocFlagsNoHooks_info example_env example_build example_world 1048576 {} 100
     = Inr (Some \<lparr> ret = 2113544, slot_start = 2113536, raw_size = 108, utilized_slot_size = 4096,
                     usable_size = 4088, is_already_zeroed = False \<rparr>, example_after {})"
    by (rule example_alloc [OF example_raw_size(1)]) simp
  have span: "FromSlotSpan example_build (example_after {})
     (FromPointerNoAlignmentCheck example_env (example_after {}) 2113544) = Inr 1048576"
    by (simp add: FromSlotSpan_def example_calls example_flags example_after_store example_store)
  from GetUsableSize_covers_request [OF example_root_ok example_slow_path_ok
      example_thread_cache_ok alloc] span
  show ?thesis
    using example_root_ok example_slow_path_ok example_thread_cache_ok alloc
    by (simp add: example_calls example_after_store)
qed

text \<open>
  Claim C5. For every allocation with the \<open>ZeroFill\<close> flag that returns a non-null pointer
  \<open>p\<close> with usable size \<open>s\<close>, every byte of \<open>[p, p + s)\<close> is zero. The \<open>memset\<close> to
  zero is left out only when the allocation reports \<open>is_already_zeroed\<close>, and then the
  bytes are zero because the slow path says so of freshly committed pages; the cookies and
  the reference count lie outside of the region.
\<close>

theorem zero_fill_region_is_zero:
  assumes ok: "root_ok cfg w this" and slow: "slow_path_ok env this"
    and tc: "thread_cache_ok env cfg this"
    and r: "roots w this = Some r"
    and ex: "extras_ok env cfg r"
    and zf: "PartitionAllocZeroFill \<in> flags"
    and alloc: "AllocFlagsNoHooks_info env cfg w this flags n = Inr (Some info, w')"
    and zeroed: "is_already_zeroed info \<longrightarrow> zeroed_ok env this"
  shows "\<forall>a. a - ret info < usable_size info \<longrightarrow> mem w' a = 0"
  using alloc
proof (cases rule: AllocFlagsNoHooks_info_cases)
  case (1 r0 raw i slot utilized z w1)
  with r have r0: "r0 = r" by simp
  note info = finish_info [OF 1(5)]
  have u: "raw \<le> utilized" using ok slow tc 1(3,4) by (rule allocate_utilized)
  then have "unat raw \<le> unat utilized" by (simp add: word_le_nat_alt)
  with raw_size_ge [OF 1(2)] have e_le: "unat (extras_size r) \<le> unat utilized" by (simp add: r0)
  have pre: "\<forall>a. a - slot < utilized \<longrightarrow> mem w1 a = 0" if "z"
  proof -
    from that zeroed have zo: "zeroed_ok env this" by (simp add: info)
    from that 1(4) have "AllocFlagsNoHooks_allocate env cfg w this r0 i flags raw
        = Inr (Some (slot, utilized, True), w1)" by simp
    from allocate_zeroed [OF this] obtain w0 where
      "SlowPathAlloc env w0 this i flags raw = Inr (slot, True, w1)" "slot \<noteq> 0"
      "utilized = GetUtilizedSlotSize env w1 (FromPointer env w1 slot)" by blast
    with zo show ?thesis unfolding zeroed_ok_def by blast
  qed
  show ?thesis
  proof (intro allI impI)
    fix a assume "a - ret info < usable_size info"
    with 1(5) zf ex e_le pre show "mem w' a = 0"
      unfolding r0 by (rule finish_zero_fill)
  qed
qed

theorem zero_fill_region_is_zero_witness:
  "root_ok example_build example_world 1048576 \<and> slow_path_ok example_env 1048576 \<and>
   thread_cache_ok example_env example_build 1048576 \<and> zeroed_ok example_env 1048576 \<and>
   roots example_world 1048576 = Some example_root \<and>
   extras_ok example_env example_build example_root \<and>
   AllocFlagsNoHooks_info example_env example_build example_world 1048576 {PartitionAllocZeroFill} 100
     = Inr (Some \<lparr> ret = 2113544, slot_start = 2113536, raw_size = 108, utilized_slot_size = 4096,
                     usable_size = 4088, is_already_zeroed = False \<rparr>,
            example_after {PartitionAllocZeroFill}) \<and>
   (2113600 - 2113544 :: uintptr_t) < 4088 \<and>
   mem (example_after {PartitionAllocZeroFill}) 2113600 = 0"
proof -
  have alloc: "AllocFlagsNoHooks_info example_env example_build example_world 1048576
       {PartitionAllocZeroFill} 100
     = Inr (Some \<lparr> ret = 2113544, slot_start = 2113536, raw_size = 108, utilized_slot_size = 4096,
                     usable_size = 4088, is_already_zeroed = False \<rparr>,
            example_after {PartitionAllocZeroFill})"
    by (rule example_alloc [OF example_raw_size(1)]) simp
  from zero_fill_region_is_zero [OF example_root_ok example_slow_path_ok example_thread_cache_ok
      example_store(1) example_extras_ok _ alloc, of ]
  have "mem (example_after {PartitionAllocZeroFill}) 2113600 = 0"
    using example_zeroed_ok by simp
  then show ?thesis
    using example_root_ok example_slow_path_ok example_thread_cache_ok example_zeroed_ok
      example_extras_ok alloc
    by (simp add: example_store)
qed

text \<open>
  Claim C6. For every alignment that is a power of two and every size, a non-null pointer
  returned by \<open>AlignedAllocFlags\<close> is a multiple of the alignment. The size requested from
  \<open>AllocFlagsNoHooks\<close> or \<open>Alloc\<close> is the alignment when the size is below it, and
  otherwise the least power of two that is not below the size.
\<close>

theorem AlignedAllocFlags_aligned:
  assumes call: "AlignedAllocFlags env cfg w this flags alignment sz = Inr (ptr, w')"
    and ptr: "ptr \<noteq> 0"
  shows "IsPowerOfTwo alignment \<and> unat ptr mod unat alignment = 0 \<and>
         (if PartitionAllocNoHooks \<in> flags
          then AllocFlagsNoHooks env cfg w this {} (AlignedAlloc_requested_size alignment sz)
          else Alloc env cfg w this (AlignedAlloc_requested_size alignment sz) []) = Inr (ptr, w') \<and>
         (if sz < alignment then AlignedAlloc_requested_size alignment sz = alignment
          else \<exists>j<64. unat (AlignedAlloc_requested_size alignment sz) = 2 ^ j \<and> unat sz \<le> 2 ^ j \<and>
                      (\<forall>k. unat sz \<le> 2 ^ k \<longrightarrow> j \<le> k))"
proof -
  define req where "req = AlignedAlloc_requested_size alignment sz"
  define inner where "inner =
     (if PartitionAllocNoHooks \<in> flags then AllocFlagsNoHooks env cfg w this {} req
      else Alloc env cfg w this req [])"
  from call have pow: "IsPowerOfTwo alignment"
    by (auto simp: AlignedAllocFlags_def split: option.splits if_splits)
  from call ptr have no: "\<not> req < sz"
    by (auto simp: AlignedAllocFlags_def Let_def req_def split: option.splits if_splits)
  from call ptr no have inner: "inner = Inr (ptr, w')" and al: "ptr AND (alignment - 1) = 0"
    by (auto simp: AlignedAllocFlags_def Let_def req_def [symmetric] inner_def
        split: option.splits if_splits sum.splits)
  have size: "\<exists>j<64. unat req = 2 ^ j \<and> unat sz \<le> 2 ^ j \<and> (\<forall>k. unat sz \<le> 2 ^ k \<longrightarrow> j \<le> k)"
    if "\<not> sz < alignment"
  proof -
    from pow obtain k where "unat alignment = 2 ^ k" by (rule IsPowerOfTwo_E)
    then have "alignment \<noteq> 0" by auto
    with that have "alignment \<le> sz" "sz \<noteq> 0" by (auto simp: not_less)
    from requested_size_power_of_two [OF this] no show ?thesis by (simp add: req_def)
  qed
  have small: "req = alignment" if "sz < alignment"
    using that by (simp add: req_def AlignedAlloc_requested_size_def)
  have c3: "(if PartitionAllocNoHooks \<in> flags
          then AllocFlagsNoHooks env cfg w this {} (AlignedAlloc_requested_size alignment sz)
          else Alloc env cfg w this (AlignedAlloc_requested_size alignment sz) []) = Inr (ptr, w')"
    using inner by (simp only: inner_def req_def)
  have c4: "(if sz < alignment then AlignedAlloc_requested_size alignment sz = alignment
          else \<exists>j<64. unat (AlignedAlloc_requested_size alignment sz) = 2 ^ j \<and> unat sz \<le> 2 ^ j \<and>
                      (\<forall>k. unat sz \<le> 2 ^ k \<longrightarrow> j \<le> k))"
    using size small by (simp add: req_def)
  from pow aligned_pointer [OF pow al] c3 c4 show ?thesis by (intro conjI)
qed

theorem AlignedAllocFlags_aligned_witness:
  "AlignedAllocFlags example_env example_build example_world 1048576 {PartitionAllocNoHooks} 8 100
     = Inr (2113544, example_after {}) \<and>
   (2113544 :: uintptr_t) \<noteq> 0 \<and> IsPowerOfTwo 8 \<and>
   unat (2113544 :: uintptr_t) mod unat (8 :: size_t) = 0 \<and>
   AllocFlagsNoHooks example_env example_build example_world 1048576 {}
     (AlignedAlloc_requested_size 8 100) = Inr (2113544, example_after {})"
  using AlignedAllocFlags_aligned [OF example_AlignedAllocFlags] example_AlignedAllocFlags
  by simp




text \<open>
  Claim C8. \<open>Free(nullptr)\<close> is a no-op: \<open>FreeNoHooks\<close> and \<open>Free\<close> return at once with
  the store as it was, whatever the hooks, the metadata lookup and the rest of the
  allocator would do; where a memory tool replaces the allocator, \<open>Free\<close> is the
  \<open>free\<close> of the C library.
\<close>

theorem Free_nullptr_is_noop:
  "FreeNoHooks env cfg w 0 = Inr w \<and>
   Free env cfg w 0 = Inr (if MEMORY_TOOL_REPLACES_ALLOCATOR cfg then libc_free env w 0 else w)"
  by (simp add: FreeNoHooks_def Free_def)

text \<open>
  Claim C9. An initialized root has \<open>inverted_self\<close> equal to the bitwise complement of
  its own address. \<open>IsValidSlotSpan\<close> is true exactly when the root that the extent entry
  of the slot span's metadata page points to has \<open>inverted_self = ~root\<close>, and
  \<open>FromSuperPage\<close> checks the same equation (a \<open>PA_DCHECK\<close>) on the root of the super
  page.
\<close>

theorem inverted_self_integrity:
  "(Init w0 this = Inr w \<longrightarrow>
      (\<exists>r. roots w this = Some r \<and> initialized r \<and> inverted_self r = NOT this)) \<and>
   (FromSlotSpan cfg w slot_span = Inr root' \<and> roots w root' = Some r \<longrightarrow>
      IsValidSlotSpan cfg w slot_span = Inr (inverted_self r = NOT root')) \<and>
   (extent_entry_root w (PartitionSuperPageToMetadataArea env super_page) = Some root' \<and>
    roots w root' = Some r \<longrightarrow>
      FromSuperPage env cfg w super_page =
        (if DCHECK_IS_ON cfg \<and> inverted_self r \<noteq> NOT root' then Inl PA_DCHECK_failed
         else Inr root'))"
  using Init_inverted_self [of w0 this w] IsValidSlotSpan_iff [of cfg w slot_span root' r]
    FromSuperPage_checks [of w env super_page root' r cfg]
  by blast

theorem inverted_self_integrity_witness:
  "Init example_world 1048576 = Inr example_world \<and>
   FromSlotSpan example_build example_world 2101312 = Inr 1048576 \<and>
   roots example_world 1048576 = Some example_root \<and>
   extent_entry_root example_world (PartitionSuperPageToMetadataArea example_env 2097152) = Some 1048576 \<and>
   initialized example_root \<and> inverted_self example_root = NOT 1048576 \<and>
   IsValidSlotSpan example_build example_world 2101312 = Inr True \<and>
   FromSuperPage example_env example_build example_world 2097152 = Inr 1048576"
proof -
  have init: "Init example_world 1048576 = Inr example_world"
    by (simp add: Init_def example_world_def example_root_def)
  have span: "FromSlotSpan example_build example_world 2101312 = Inr 1048576"
    by (simp add: FromSlotSpan_def example_flags example_store)
  have area: "extent_entry_root example_world (PartitionSuperPageToMetadataArea example_env 2097152)
      = Some 1048576"
    by (simp add: example_env_def example_store)
  from inverted_self_integrity [where ?w0.0 = example_world and this = 1048576
      and w = example_world and cfg = example_build and slot_span = 2101312 and root' = 1048576
      and r = example_root and env = example_env and super_page = 2097152] init span area
  show ?thesis by (simp add: example_store example_flags)
qed

text \<open>
  Claim C10. Where reference counts are compiled in, a request of size zero is given the
  raw size \<open>1 + extras_size\<close>, so the pointer returned for \<open>Alloc(0)\<close> lies strictly
  inside its slot: its distance from the start of the slot, \<open>extras_offset\<close>, is below the
  utilized slot size.
\<close>

theorem zero_size_pointer_inside_slot:
  assumes ok: "root_ok cfg w this" and slow: "slow_path_ok env this"
    and tc: "thread_cache_ok env cfg this"
    and rc: "ENABLE_REF_COUNT_FOR_BACKUP_REF_PTR cfg"
    and r: "roots w this = Some r"
    and off: "unat (extras_offset r) \<le> unat (extras_size r)"
    and alloc: "AllocFlagsNoHooks_info env cfg w this flags 0 = Inr (Some info, w')"
  shows "unat (raw_size info) = 1 + unat (extras_size r) \<and>
         ret info = slot_start info + ucast (extras_offset r) \<and>
         unat (ret info - slot_start info) < unat (utilized_slot_size info)"
  using alloc
proof (cases rule: AllocFlagsNoHooks_info_cases)
  case (1 r0 raw i slot utilized zeroed w1)
  with r have r0: "r0 = r" by simp
  note info = finish_info [OF 1(5)]
  have raw: "unat raw = 1 + unat (extras_size r)"
    using raw_size_no_wrap [OF 1(2)] rc by (simp add: r0)
  have u: "raw \<le> utilized" using ok slow tc 1(3,4) by (rule allocate_utilized)
  then have "unat raw \<le> unat utilized" by (simp add: word_le_nat_alt)
  with raw off have "unat (extras_offset r) < unat utilized" by simp
  moreover have "ret info - slot_start info = ucast (extras_offset r)"
    by (simp add: info r0)
  ultimately show ?thesis using raw by (simp add: info r0 unat_ucast_extras)
qed

theorem zero_size_pointer_inside_slot_witness:
  "root_ok example_build example_world 1048576 \<and> slow_path_ok example_env 1048576 \<and>
   thread_cache_ok example_env example_build 1048576 \<and>
   ENABLE_REF_COUNT_FOR_BACKUP_REF_PTR example_build \<and>
   roots example_world 1048576 = Some example_root \<and>
   unat (extras_offset example_root) \<le> unat (extras_size example_root) \<and>
   AllocFlagsNoHooks_info example_env example_build example_world 1048576 {} 0
     = Inr (Some \<lparr> ret = 2113544, slot_start = 2113536, raw_size = 9, utilized_slot_size = 4096,
                     usable_size = 4088, is_already_zeroed = False \<rparr>, example_after {}) \<and>
   unat (2113544 - 2113536 :: uintptr_t) < unat (4096 :: size_t)"
proof -
  have alloc: "AllocFlagsNoHooks_info example_env example_build example_world 1048576 {} 0
     = Inr (Some \<lparr> ret = 2113544, slot_start = 2113536, raw_size = 9, utilized_slot_size = 4096,
                     usable_size = 4088, is_already_zeroed = False \<rparr>, example_after {})"
    by (rule example_alloc [OF example_raw_size(2)]) simp
  have off: "unat (extras_offset example_root) \<le> unat (extras_size example_root)"
    by (simp add: example_root_def)
  from zero_size_pointer_inside_slot [OF example_root_ok example_slow_path_ok
      example_thread_cache_ok example_flags(4) example_store(1) off alloc]
  show ?thesis
    using example_root_ok example_slow_path_ok example_thread_cache_ok alloc off
    by (simp add: example_store example_flags)
qed

end
